theory Spec2Isabelle
  imports Complex_Main
begin

section \<open>The hash table of \<^verbatim>\<open>project/hashtable/threaded_hash_table.py\<close>\<close>

text \<open>
  The development embeds the classes \<^verbatim>\<open>DoublyLinkedList\<close>, \<^verbatim>\<open>ThreadSafeHashTable\<close>
  and \<^verbatim>\<open>NonThreadSafeHashTable\<close> as they run on a single thread. Locks have no
  effect on one thread (all of them are reentrant), so they do not appear in the state.

  Keys are values of any type \<open>'k\<close>. The two operations that the code applies to keys are
  parameters of the model: \<open>keq\<close> is Python's \<^verbatim>\<open>==\<close> on keys, and \<open>hf\<close> is \<^verbatim>\<open>hash\<close>.
  Nothing is assumed of \<open>keq\<close> in the definitions; in particular it need not be reflexive
  (\<^verbatim>\<open>float('nan') == float('nan')\<close> is false). The theorems ask of the keys what
  Python asks of the keys of a mapping (\<open>key_contract\<close>), and where a key must compare
  equal to itself they say so. Python integers are \<open>int\<close>.

  The load factor is the real number that the float denotes, and
  \<^verbatim>\<open>self._size / self._capacity\<close> is \<open>py_truediv\<close>: the quotient of the two integers rounded
  to the nearest number with a 53-bit significand, ties to even, as CPython computes it.

  The operations index the bucket array with \<^verbatim>\<open>hash(key) % self._capacity\<close>. The model
  describes them on tables whose capacity is positive and equals the number of buckets, where
  that index is in range and no division is by zero: \<^verbatim>\<open>ThreadSafeHashTable.__init__\<close>
  builds such a table or raises, and every operation keeps the property (\<open>table_inv\<close>,
  \<open>inv_index_in_range\<close>, \<open>setitem_sound\<close>, \<open>delitem_inv\<close>). The \<^verbatim>\<open>ZeroDivisionError\<close>
  and \<^verbatim>\<open>IndexError\<close> that a \<^verbatim>\<open>NonThreadSafeHashTable\<close> built with a capacity that is not
  positive raises at its first access are outside the model.
\<close>

subsection \<open>Float division of integers\<close>

text \<open>
  \<^verbatim>\<open>a / b\<close> on Python integers is the correctly rounded quotient. \<open>normalize\<close> scales
  numerator or denominator by powers of two until the quotient lies in \<open>[2^52, 2^53)\<close>;
  there the doubles are the integers, so the scaled quotient is rounded to an integer, ties
  to even, and scaled back. The exponent is not bounded: the overflow error and the gradual
  underflow of quotients beyond \<open>2^1023\<close> or below \<open>2^-1022\<close> are not modelled (sizes and
  capacities of tables that fit in memory are far from both). Division by zero raises in
  Python; \<open>py_truediv a 0\<close> is \<open>0\<close> here and is never reached on a table with a positive
  capacity.
\<close>

function normalize :: "int \<Rightarrow> int \<Rightarrow> int \<times> int" where
  "normalize num den =
     (if num \<le> 0 \<or> den \<le> 0 then (num, den)
      else if num < den * 2 ^ 52 then normalize (2 * num) den
      else if den * 2 ^ 53 \<le> num then normalize num (2 * den)
      else (num, den))"
  by pat_completeness auto
termination
  by (relation "measure (\<lambda>(num, den). nat (den * 2 ^ 52 - num) + nat (num - den * 2 ^ 53 + 1))")
    auto

definition round_half_even :: "real \<Rightarrow> int" where
  "round_half_even x =
     (let f = \<lfloor>x\<rfloor>
      in if x - of_int f < 1 / 2 then f
         else if 1 / 2 < x - of_int f then f + 1
         else if even f then f else f + 1)"

definition py_truediv :: "int \<Rightarrow> int \<Rightarrow> real" where
  "py_truediv a b =
     (if a = 0 \<or> b = 0 then 0
      else let (num, den) = normalize \<bar>a\<bar> \<bar>b\<bar>;
               x = of_int num / of_int den
           in of_int (sgn a * sgn b) * of_int (round_half_even x)
                * (of_int \<bar>a\<bar> / of_int \<bar>b\<bar>) / x)"

subsection \<open>Errors\<close>

datatype error = KeyError | ValueError

subsection \<open>\<^verbatim>\<open>DoublyLinkedList\<close>\<close>

text \<open>
  A list object is the sequence of its nodes from \<^verbatim>\<open>head\<close> to \<^verbatim>\<open>tail\<close>, each node a
  pair of key and value. The list's own \<^verbatim>\<open>_size\<close> counter is the length of that
  sequence and is never read by the tables. A node reference returned by \<^verbatim>\<open>find(key)\<close>
  designates the first node whose key compares equal to \<^verbatim>\<open>key\<close>; assigning its
  \<^verbatim>\<open>value\<close> and passing it to \<^verbatim>\<open>remove\<close> are therefore operations on the first such node.
\<close>

type_synonym ('k, 'v) dll = "('k \<times> 'v) list"

text \<open>Python's \<^verbatim>\<open>==\<close> on keys, as the code calls it: \<^verbatim>\<open>current.key == key\<close> is
  \<open>keq (fst nd) key\<close>.\<close>

type_synonym 'k key_eq = "'k \<Rightarrow> 'k \<Rightarrow> bool"

definition dll_append :: "('k, 'v) dll \<Rightarrow> 'k \<Rightarrow> 'v \<Rightarrow> ('k, 'v) dll" where
  "dll_append xs key val = xs @ [(key, val)]"

fun dll_find :: "'k key_eq \<Rightarrow> ('k, 'v) dll \<Rightarrow> 'k \<Rightarrow> ('k \<times> 'v) option" where
  "dll_find keq [] key = None"
| "dll_find keq (nd # rest) key =
     (if keq (fst nd) key then Some nd else dll_find keq rest key)"

text \<open>\<^verbatim>\<open>node = xs.find(key); node.value = val\<close>, and the same scan written out as a
  \<^verbatim>\<open>while\<close> loop over the key list in \<^verbatim>\<open>__setitem__\<close>.\<close>

fun set_value :: "'k key_eq \<Rightarrow> ('k, 'v) dll \<Rightarrow> 'k \<Rightarrow> 'v \<Rightarrow> ('k, 'v) dll" where
  "set_value keq [] key val = []"
| "set_value keq (nd # rest) key val =
     (if keq (fst nd) key then (fst nd, val) # rest else nd # set_value keq rest key val)"

text \<open>\<^verbatim>\<open>xs.remove(xs.find(key))\<close>, and the scan-and-remove loop of \<^verbatim>\<open>__delitem__\<close>.\<close>

fun dll_remove :: "'k key_eq \<Rightarrow> ('k, 'v) dll \<Rightarrow> 'k \<Rightarrow> ('k, 'v) dll" where
  "dll_remove keq [] key = []"
| "dll_remove keq (nd # rest) key =
     (if keq (fst nd) key then rest else nd # dll_remove keq rest key)"

definition dll_iter :: "('k, 'v) dll \<Rightarrow> 'k list" where
  "dll_iter xs = map fst xs"

subsection \<open>\<^verbatim>\<open>ThreadSafeHashTable\<close>\<close>

record ('k, 'v) table =
  t_capacity :: int
  t_load_factor :: real
  t_buckets :: "('k, 'v) dll list"
  t_size :: int
  t_keys_list :: "('k, 'v) dll"

definition init :: "int \<Rightarrow> real \<Rightarrow> error + ('k, 'v) table" where
  "init initial_capacity load_factor =
     (if initial_capacity \<le> 0 then Inl ValueError
      else if \<not> (0 < load_factor \<and> load_factor \<le> 1) then Inl ValueError
      else Inr \<lparr>t_capacity = initial_capacity, t_load_factor = load_factor,
                t_buckets = replicate (nat initial_capacity) [],
                t_size = 0, t_keys_list = []\<rparr>)"

text \<open>The defaults of the constructor's parameters.\<close>

definition init_default :: "error + ('k, 'v) table" where
  "init_default = init 8 0.75"

text \<open>\<^verbatim>\<open>hash(key) % self._capacity\<close>, as a list index. Python's \<^verbatim>\<open>%\<close> on integers takes
  the sign of the divisor, as \<open>mod\<close> on \<open>int\<close> does.\<close>

definition hash_index :: "('k \<Rightarrow> int) \<Rightarrow> ('k, 'v) table \<Rightarrow> 'k \<Rightarrow> nat" where
  "hash_index hf t key = nat (hf key mod t_capacity t)"

text \<open>The test of \<^verbatim>\<open>_check_resize\<close>: the float quotient against the load factor.\<close>

definition load_exceeded :: "('k, 'v) table \<Rightarrow> bool" where
  "load_exceeded t \<longleftrightarrow> py_truediv (t_size t) (t_capacity t) > t_load_factor t"

text \<open>The inner loop of \<^verbatim>\<open>_resize\<close>: the first old bucket that holds the key.\<close>

fun find_in_buckets :: "'k key_eq \<Rightarrow> ('k, 'v) dll list \<Rightarrow> 'k \<Rightarrow> ('k \<times> 'v) option" where
  "find_in_buckets keq [] key = None"
| "find_in_buckets keq (bucket # rest) key =
     (case dll_find keq bucket key of
        Some nd \<Rightarrow> Some nd
      | None \<Rightarrow> find_in_buckets keq rest key)"

text \<open>
  \<^verbatim>\<open>__setitem__\<close> calls \<^verbatim>\<open>_check_resize\<close>, which calls \<^verbatim>\<open>_resize\<close>, which re-inserts every
  key with \<^verbatim>\<open>self[key] = node.value\<close>: the recursion is mutual and nested, and for a
  load factor that is not positive it never ends. The first argument after \<open>hf\<close> bounds
  the depth of \<^verbatim>\<open>_resize\<close> calls in progress; \<open>None\<close> means that the bound was
  reached.
\<close>

function setitem :: "'k key_eq \<Rightarrow> ('k \<Rightarrow> int) \<Rightarrow> nat \<Rightarrow> ('k, 'v) table \<Rightarrow> 'k \<Rightarrow> 'v \<Rightarrow> ('k, 'v) table option"
and check_resize :: "'k key_eq \<Rightarrow> ('k \<Rightarrow> int) \<Rightarrow> nat \<Rightarrow> ('k, 'v) table \<Rightarrow> ('k, 'v) table option"
and resize :: "'k key_eq \<Rightarrow> ('k \<Rightarrow> int) \<Rightarrow> nat \<Rightarrow> ('k, 'v) table \<Rightarrow> int \<Rightarrow> ('k, 'v) table option"
and rehash :: "'k key_eq \<Rightarrow> ('k \<Rightarrow> int) \<Rightarrow> nat \<Rightarrow> ('k, 'v) table \<Rightarrow> ('k, 'v) dll list \<Rightarrow> 'k list
                 \<Rightarrow> ('k, 'v) table option"
where
  "setitem keq hf n t key val =
     (let bucket_index = hash_index hf t key;
          bucket = t_buckets t ! bucket_index
      in case dll_find keq bucket key of
           Some existing_node \<Rightarrow>
             Some (t\<lparr>t_buckets := (t_buckets t)[bucket_index := set_value keq bucket key val],
                     t_keys_list := set_value keq (t_keys_list t) key val\<rparr>)
         | None \<Rightarrow>
             check_resize keq hf n
               (t\<lparr>t_buckets := (t_buckets t)[bucket_index := dll_append bucket key val],
                  t_keys_list := dll_append (t_keys_list t) key val,
                  t_size := t_size t + 1\<rparr>))"
| "check_resize keq hf n t =
     (if load_exceeded t then resize keq hf n t (t_capacity t * 2) else Some t)"
| "resize keq hf n t new_capacity =
     (if py_truediv (t_size t) (t_capacity t) \<le> t_load_factor t then Some t
      else case n of
        0 \<Rightarrow> None
      | Suc m \<Rightarrow>
          rehash keq hf m
            (t\<lparr>t_capacity := new_capacity,
               t_buckets := replicate (nat new_capacity) [],
               t_size := 0,
               t_keys_list := []\<rparr>)
            (t_buckets t) (dll_iter (t_keys_list t)))"
| "rehash keq hf n t old_buckets [] = Some t"
| "rehash keq hf n t old_buckets (key # ks) =
     (case find_in_buckets keq old_buckets key of
        None \<Rightarrow> rehash keq hf n t old_buckets ks
      | Some node \<Rightarrow>
          (case setitem keq hf n t key (snd node) of
             None \<Rightarrow> None
           | Some t' \<Rightarrow> rehash keq hf n t' old_buckets ks))"
  by pat_completeness auto
termination
  by (relation "measures
        [case_sum (case_sum (\<lambda>(keq, hf, n, t, key, val). n) (\<lambda>(keq, hf, n, t). n))
                  (case_sum (\<lambda>(keq, hf, n, t, c). n) (\<lambda>(keq, hf, n, t, ob, ks). n)),
         case_sum (case_sum (\<lambda>x. 2) (\<lambda>x. 1)) (case_sum (\<lambda>x. 0) (\<lambda>x. 3)),
         case_sum (case_sum (\<lambda>x. 0) (\<lambda>x. 0))
                  (case_sum (\<lambda>x. 0) (\<lambda>(keq, hf, n, t, ob, ks). length ks))]")
    auto

definition getitem :: "'k key_eq \<Rightarrow> ('k \<Rightarrow> int) \<Rightarrow> ('k, 'v) table \<Rightarrow> 'k \<Rightarrow> error + 'v" where
  "getitem keq hf t key =
     (case dll_find keq (t_buckets t ! hash_index hf t key) key of
        None \<Rightarrow> Inl KeyError
      | Some node \<Rightarrow> Inr (snd node))"

text \<open>\<^verbatim>\<open>get\<close> catches \<^verbatim>\<open>KeyError\<close> only; any other error would propagate.\<close>

definition get :: "'k key_eq \<Rightarrow> ('k \<Rightarrow> int) \<Rightarrow> ('k, 'v) table \<Rightarrow> 'k \<Rightarrow> 'v \<Rightarrow> error + 'v" where
  "get keq hf t key dflt =
     (case getitem keq hf t key of
        Inr v \<Rightarrow> Inr v
      | Inl e \<Rightarrow> (if e = KeyError then Inr dflt else Inl e))"

definition delitem :: "'k key_eq \<Rightarrow> ('k \<Rightarrow> int) \<Rightarrow> ('k, 'v) table \<Rightarrow> 'k \<Rightarrow> error + ('k, 'v) table" where
  "delitem keq hf t key =
     (let bucket_index = hash_index hf t key;
          bucket = t_buckets t ! bucket_index
      in case dll_find keq bucket key of
           None \<Rightarrow> Inl KeyError
         | Some node \<Rightarrow>
             Inr (t\<lparr>t_buckets := (t_buckets t)[bucket_index := dll_remove keq bucket key],
                    t_keys_list := dll_remove keq (t_keys_list t) key,
                    t_size := t_size t - 1\<rparr>))"

definition contains :: "'k key_eq \<Rightarrow> ('k \<Rightarrow> int) \<Rightarrow> ('k, 'v) table \<Rightarrow> 'k \<Rightarrow> bool" where
  "contains keq hf t key \<longleftrightarrow> dll_find keq (t_buckets t ! hash_index hf t key) key \<noteq> None"

definition iter :: "('k, 'v) table \<Rightarrow> 'k list" where
  "iter t = map fst (t_keys_list t)"

definition len :: "('k, 'v) table \<Rightarrow> int" where
  "len t = t_size t"

definition keys :: "('k, 'v) table \<Rightarrow> 'k list" where
  "keys t = iter t"


definition items :: "('k, 'v) table \<Rightarrow> ('k \<times> 'v) list" where
  "items t = map (\<lambda>nd. (fst nd, snd nd)) (t_keys_list t)"

subsection \<open>\<^verbatim>\<open>NonThreadSafeHashTable\<close>\<close>

text \<open>The second class has the same fields without the locks. Its constructor checks
  nothing, and its \<^verbatim>\<open>_resize\<close> does not test the load factor again.\<close>

definition nts_init :: "int \<Rightarrow> real \<Rightarrow> ('k, 'v) table" where
  "nts_init initial_capacity load_factor =
     \<lparr>t_capacity = initial_capacity, t_load_factor = load_factor,
      t_buckets = replicate (nat initial_capacity) [],
      t_size = 0, t_keys_list = []\<rparr>"

function nts_setitem :: "'k key_eq \<Rightarrow> ('k \<Rightarrow> int) \<Rightarrow> nat \<Rightarrow> ('k, 'v) table \<Rightarrow> 'k \<Rightarrow> 'v \<Rightarrow> ('k, 'v) table option"
and nts_check_resize :: "'k key_eq \<Rightarrow> ('k \<Rightarrow> int) \<Rightarrow> nat \<Rightarrow> ('k, 'v) table \<Rightarrow> ('k, 'v) table option"
and nts_resize :: "'k key_eq \<Rightarrow> ('k \<Rightarrow> int) \<Rightarrow> nat \<Rightarrow> ('k, 'v) table \<Rightarrow> int \<Rightarrow> ('k, 'v) table option"
and nts_rehash :: "'k key_eq \<Rightarrow> ('k \<Rightarrow> int) \<Rightarrow> nat \<Rightarrow> ('k, 'v) table \<Rightarrow> ('k, 'v) dll list \<Rightarrow> 'k list
                     \<Rightarrow> ('k, 'v) table option"
where
  "nts_setitem keq hf n t key val =
     (let bucket_index = hash_index hf t key;
          bucket = t_buckets t ! bucket_index
      in case dll_find keq bucket key of
           Some existing_node \<Rightarrow>
             Some (t\<lparr>t_buckets := (t_buckets t)[bucket_index := set_value keq bucket key val],
                     t_keys_list := set_value keq (t_keys_list t) key val\<rparr>)
         | None \<Rightarrow>
             nts_check_resize keq hf n
               (t\<lparr>t_buckets := (t_buckets t)[bucket_index := dll_append bucket key val],
                  t_keys_list := dll_append (t_keys_list t) key val,
                  t_size := t_size t + 1\<rparr>))"
| "nts_check_resize keq hf n t =
     (if load_exceeded t then nts_resize keq hf n t (t_capacity t * 2) else Some t)"
| "nts_resize keq hf n t new_capacity =
     (case n of
        0 \<Rightarrow> None
      | Suc m \<Rightarrow>
          nts_rehash keq hf m
            (t\<lparr>t_capacity := new_capacity,
               t_buckets := replicate (nat new_capacity) [],
               t_size := 0,
               t_keys_list := []\<rparr>)
            (t_buckets t) (dll_iter (t_keys_list t)))"
| "nts_rehash keq hf n t old_buckets [] = Some t"
| "nts_rehash keq hf n t old_buckets (key # ks) =
     (case find_in_buckets keq old_buckets key of
        None \<Rightarrow> nts_rehash keq hf n t old_buckets ks
      | Some node \<Rightarrow>
          (case nts_setitem keq hf n t key (snd node) of
             None \<Rightarrow> None
           | Some t' \<Rightarrow> nts_rehash keq hf n t' old_buckets ks))"
  by pat_completeness auto
termination
  by (relation "measures
        [case_sum (case_sum (\<lambda>(keq, hf, n, t, key, val). n) (\<lambda>(keq, hf, n, t). n))
                  (case_sum (\<lambda>(keq, hf, n, t, c). n) (\<lambda>(keq, hf, n, t, ob, ks). n)),
         case_sum (case_sum (\<lambda>x. 2) (\<lambda>x. 1)) (case_sum (\<lambda>x. 0) (\<lambda>x. 3)),
         case_sum (case_sum (\<lambda>x. 0) (\<lambda>x. 0))
                  (case_sum (\<lambda>x. 0) (\<lambda>(keq, hf, n, t, ob, ks). length ks))]")
    auto

definition nts_getitem :: "'k key_eq \<Rightarrow> ('k \<Rightarrow> int) \<Rightarrow> ('k, 'v) table \<Rightarrow> 'k \<Rightarrow> error + 'v" where
  "nts_getitem keq hf t key =
     (case dll_find keq (t_buckets t ! hash_index hf t key) key of
        None \<Rightarrow> Inl KeyError
      | Some node \<Rightarrow> Inr (snd node))"

text \<open>\<^verbatim>\<open>get\<close> is inherited from \<^verbatim>\<open>collections.abc.Mapping\<close>: \<^verbatim>\<open>self[key]\<close>, with the
  default on \<^verbatim>\<open>KeyError\<close>.\<close>

definition nts_get :: "'k key_eq \<Rightarrow> ('k \<Rightarrow> int) \<Rightarrow> ('k, 'v) table \<Rightarrow> 'k \<Rightarrow> 'v \<Rightarrow> error + 'v" where
  "nts_get keq hf t key dflt =
     (case nts_getitem keq hf t key of
        Inr v \<Rightarrow> Inr v
      | Inl e \<Rightarrow> (if e = KeyError then Inr dflt else Inl e))"

definition nts_delitem :: "'k key_eq \<Rightarrow> ('k \<Rightarrow> int) \<Rightarrow> ('k, 'v) table \<Rightarrow> 'k \<Rightarrow> error + ('k, 'v) table" where
  "nts_delitem keq hf t key =
     (let bucket_index = hash_index hf t key;
          bucket = t_buckets t ! bucket_index
      in case dll_find keq bucket key of
           None \<Rightarrow> Inl KeyError
         | Some node \<Rightarrow>
             Inr (t\<lparr>t_buckets := (t_buckets t)[bucket_index := dll_remove keq bucket key],
                    t_keys_list := dll_remove keq (t_keys_list t) key,
                    t_size := t_size t - 1\<rparr>))"

definition nts_contains :: "'k key_eq \<Rightarrow> ('k \<Rightarrow> int) \<Rightarrow> ('k, 'v) table \<Rightarrow> 'k \<Rightarrow> bool" where
  "nts_contains keq hf t key \<longleftrightarrow> dll_find keq (t_buckets t ! hash_index hf t key) key \<noteq> None"

definition nts_iter :: "('k, 'v) table \<Rightarrow> 'k list" where
  "nts_iter t = map fst (t_keys_list t)"

definition nts_len :: "('k, 'v) table \<Rightarrow> int" where
  "nts_len t = t_size t"

subsection \<open>Sequential clients\<close>

text \<open>
  A single-threaded client issues operations one after the other and observes what each
  returns or raises. An operation that raises leaves the table as it was: both
  \<^verbatim>\<open>__getitem__\<close> and \<^verbatim>\<open>__delitem__\<close> raise before their first assignment.
\<close>

datatype ('k, 'v) operation =
  Set 'k 'v | Get 'k | GetDefault 'k 'v | Delete 'k | Contains 'k | Length | Keys

datatype ('k, 'v) outcome =
  Done | Value 'v | Flag bool | Count int | KeyList "'k list" | Raised error

fun apply_op :: "'k key_eq \<Rightarrow> ('k \<Rightarrow> int) \<Rightarrow> nat \<Rightarrow> ('k, 'v) table \<Rightarrow> ('k, 'v) operation
                   \<Rightarrow> (('k, 'v) outcome \<times> ('k, 'v) table) option" where
  "apply_op keq hf n t (Set key val) =
     (case setitem keq hf n t key val of None \<Rightarrow> None | Some t' \<Rightarrow> Some (Done, t'))"
| "apply_op keq hf n t (Get key) =
     Some (case getitem keq hf t key of Inl e \<Rightarrow> Raised e | Inr v \<Rightarrow> Value v, t)"
| "apply_op keq hf n t (GetDefault key dflt) =
     Some (case get keq hf t key dflt of Inl e \<Rightarrow> Raised e | Inr v \<Rightarrow> Value v, t)"
| "apply_op keq hf n t (Delete key) =
     Some (case delitem keq hf t key of Inl e \<Rightarrow> (Raised e, t) | Inr t' \<Rightarrow> (Done, t'))"
| "apply_op keq hf n t (Contains key) = Some (Flag (contains keq hf t key), t)"
| "apply_op keq hf n t Length = Some (Count (len t), t)"
| "apply_op keq hf n t Keys = Some (KeyList (keys t), t)"

fun run :: "'k key_eq \<Rightarrow> ('k \<Rightarrow> int) \<Rightarrow> nat \<Rightarrow> ('k, 'v) table \<Rightarrow> ('k, 'v) operation list
              \<Rightarrow> (('k, 'v) outcome list \<times> ('k, 'v) table) option" where
  "run keq hf n t [] = Some ([], t)"
| "run keq hf n t (op # ops) =
     (case apply_op keq hf n t op of
        None \<Rightarrow> None
      | Some (out, t') \<Rightarrow>
          (case run keq hf n t' ops of
             None \<Rightarrow> None
           | Some (outs, t'') \<Rightarrow> Some (out # outs, t'')))"

fun nts_apply_op :: "'k key_eq \<Rightarrow> ('k \<Rightarrow> int) \<Rightarrow> nat \<Rightarrow> ('k, 'v) table \<Rightarrow> ('k, 'v) operation
                       \<Rightarrow> (('k, 'v) outcome \<times> ('k, 'v) table) option" where
  "nts_apply_op keq hf n t (Set key val) =
     (case nts_setitem keq hf n t key val of None \<Rightarrow> None | Some t' \<Rightarrow> Some (Done, t'))"
| "nts_apply_op keq hf n t (Get key) =
     Some (case nts_getitem keq hf t key of Inl e \<Rightarrow> Raised e | Inr v \<Rightarrow> Value v, t)"
| "nts_apply_op keq hf n t (GetDefault key dflt) =
     Some (case nts_get keq hf t key dflt of Inl e \<Rightarrow> Raised e | Inr v \<Rightarrow> Value v, t)"
| "nts_apply_op keq hf n t (Delete key) =
     Some (case nts_delitem keq hf t key of Inl e \<Rightarrow> (Raised e, t) | Inr t' \<Rightarrow> (Done, t'))"
| "nts_apply_op keq hf n t (Contains key) = Some (Flag (nts_contains keq hf t key), t)"
| "nts_apply_op keq hf n t Length = Some (Count (nts_len t), t)"
| "nts_apply_op keq hf n t Keys = Some (KeyList (nts_iter t), t)"

fun nts_run :: "'k key_eq \<Rightarrow> ('k \<Rightarrow> int) \<Rightarrow> nat \<Rightarrow> ('k, 'v) table \<Rightarrow> ('k, 'v) operation list
                  \<Rightarrow> (('k, 'v) outcome list \<times> ('k, 'v) table) option" where
  "nts_run keq hf n t [] = Some ([], t)"
| "nts_run keq hf n t (op # ops) =
     (case nts_apply_op keq hf n t op of
        None \<Rightarrow> None
      | Some (out, t') \<Rightarrow>
          (case nts_run keq hf n t' ops of
             None \<Rightarrow> None
           | Some (outs, t'') \<Rightarrow> Some (out # outs, t'')))"

text \<open>A client that inserts a list of entries, one after the other.\<close>

definition set_all :: "('k \<times> 'v) list \<Rightarrow> ('k, 'v) operation list" where
  "set_all kvs = map (\<lambda>kv. Set (fst kv) (snd kv)) kvs"

text \<open>The keys that a history of operations leaves in the map, in the order of their
  first insertion: what the specification's Global Order Index is meant to hold. Keys are
  compared with \<open>keq\<close>, as the map compares them.\<close>

fun track :: "'k key_eq \<Rightarrow> 'k list \<Rightarrow> ('k, 'v) operation list \<Rightarrow> 'k list" where
  "track keq live [] = live"
| "track keq live (Set key val # ops) =
     track keq (if \<exists>k \<in> set live. keq k key then live else live @ [key]) ops"
| "track keq live (Delete key # ops) = track keq (filter (\<lambda>k. \<not> keq k key) live) ops"
| "track keq live (op # ops) = track keq live ops"

definition insertion_order :: "'k key_eq \<Rightarrow> ('k, 'v) operation list \<Rightarrow> 'k list" where
  "insertion_order keq ops = track keq [] ops"

subsection \<open>Keys\<close>

text \<open>
  What Python asks of the keys of a mapping: \<^verbatim>\<open>==\<close> is symmetric and transitive, and keys
  that compare equal have the same hash. Reflexivity is not asked: a key \<open>k\<close> is
  \<^emph>\<open>proper\<close> when \<open>keq k k\<close>, and \<^verbatim>\<open>float('nan')\<close> is a hashable key that is not.
\<close>

definition key_contract :: "'k key_eq \<Rightarrow> ('k \<Rightarrow> int) \<Rightarrow> bool" where
  "key_contract keq hf \<longleftrightarrow>
     (\<forall>a b. keq a b \<longrightarrow> keq b a) \<and>
     (\<forall>a b c. keq a b \<longrightarrow> keq b c \<longrightarrow> keq a c) \<and>
     (\<forall>a b. keq a b \<longrightarrow> hf a = hf b)"

text \<open>No two positions of the list hold keys that compare equal.\<close>

fun unique_keys :: "'k key_eq \<Rightarrow> 'k list \<Rightarrow> bool" where
  "unique_keys keq [] = True"
| "unique_keys keq (k # ks) = ((\<forall>k' \<in> set ks. \<not> keq k k') \<and> unique_keys keq ks)"

definition proper_keys :: "'k key_eq \<Rightarrow> 'k list \<Rightarrow> 'k list" where
  "proper_keys keq ks = filter (\<lambda>k. keq k k) ks"

definition proper_part :: "'k key_eq \<Rightarrow> ('k, 'v) dll \<Rightarrow> ('k, 'v) dll" where
  "proper_part keq kl = filter (\<lambda>nd. keq (fst nd) (fst nd)) kl"

definition all_proper :: "'k key_eq \<Rightarrow> ('k, 'v) table \<Rightarrow> bool" where
  "all_proper keq t \<longleftrightarrow> (\<forall>nd \<in> set (t_keys_list t). keq (fst nd) (fst nd))"

text \<open>The histories that insert proper keys only.\<close>

definition proper_history :: "'k key_eq \<Rightarrow> ('k, 'v) operation list \<Rightarrow> bool" where
  "proper_history keq ops \<longleftrightarrow> (\<forall>op \<in> set ops. case op of Set key val \<Rightarrow> keq key key | _ \<Rightarrow> True)"

subsection \<open>The representation invariant\<close>

text \<open>
  Every bucket holds exactly the nodes of the key list that hash to it, in the same
  order and with the same values; no two nodes hold keys that compare equal; the counter
  is the number of nodes.
\<close>

definition bucket_of :: "('k \<Rightarrow> int) \<Rightarrow> int \<Rightarrow> ('k, 'v) dll \<Rightarrow> nat \<Rightarrow> ('k, 'v) dll" where
  "bucket_of hf c kl i = filter (\<lambda>nd. nat (hf (fst nd) mod c) = i) kl"

definition table_inv :: "'k key_eq \<Rightarrow> ('k \<Rightarrow> int) \<Rightarrow> ('k, 'v) table \<Rightarrow> bool" where
  "table_inv keq hf t \<longleftrightarrow>
     0 < t_capacity t \<and> 0 < t_load_factor t \<and>
     t_size t = int (length (t_keys_list t)) \<and>
     unique_keys keq (map fst (t_keys_list t)) \<and>
     t_buckets t = map (bucket_of hf (t_capacity t) (t_keys_list t)) [0..<nat (t_capacity t)]"

text \<open>The key list after \<^verbatim>\<open>self[key] = val\<close> when no resize happens, and the entries that
  the rehash loop of \<^verbatim>\<open>_resize\<close> re-inserts.\<close>

definition put :: "'k key_eq \<Rightarrow> ('k, 'v) dll \<Rightarrow> 'k \<Rightarrow> 'v \<Rightarrow> ('k, 'v) dll" where
  "put keq kl key val =
     (if dll_find keq kl key = None then kl @ [(key, val)] else set_value keq kl key val)"

fun rehashed :: "'k key_eq \<Rightarrow> ('k, 'v) dll list \<Rightarrow> 'k list \<Rightarrow> ('k, 'v) dll" where
  "rehashed keq ob [] = []"
| "rehashed keq ob (key # ks) =
     (case find_in_buckets keq ob key of None \<Rightarrow> rehashed keq ob ks
      | Some nd \<Rightarrow> (key, snd nd) # rehashed keq ob ks)"

definition grown :: "('k, 'v) table \<Rightarrow> ('k, 'v) table \<Rightarrow> bool" where
  "grown t t' \<longleftrightarrow> t_load_factor t' = t_load_factor t \<and> t_capacity t \<le> t_capacity t'"

text \<open>One more entry would exceed the threshold.\<close>

definition overfull :: "('k, 'v) table \<Rightarrow> bool" where
  "overfull t \<longleftrightarrow> t_load_factor t < py_truediv (t_size t + 1) (t_capacity t)"

text \<open>What \<^verbatim>\<open>__setitem__\<close>, \<^verbatim>\<open>_check_resize\<close> and the rehash loop establish.\<close>

definition after_set ::
  "'k key_eq \<Rightarrow> ('k \<Rightarrow> int) \<Rightarrow> ('k, 'v) table \<Rightarrow> 'k \<Rightarrow> 'v \<Rightarrow> ('k, 'v) table \<Rightarrow> bool" where
  "after_set keq hf t key val t' \<longleftrightarrow>
     table_inv keq hf t' \<and> grown t t' \<and>
     (if dll_find keq (t_keys_list t) key \<noteq> None
      then t_capacity t' = t_capacity t \<and>
           t_keys_list t' = set_value keq (t_keys_list t) key val
      else if overfull t
      then t_capacity t < t_capacity t' \<and>
           t_keys_list t' = proper_part keq (t_keys_list t @ [(key, val)])
      else t_capacity t' = t_capacity t \<and> t_keys_list t' = t_keys_list t @ [(key, val)])"

definition after_check ::
  "'k key_eq \<Rightarrow> ('k \<Rightarrow> int) \<Rightarrow> ('k, 'v) table \<Rightarrow> ('k, 'v) table \<Rightarrow> bool" where
  "after_check keq hf t t' \<longleftrightarrow>
     table_inv keq hf t' \<and> grown t t' \<and>
     (if load_exceeded t
      then t_capacity t < t_capacity t' \<and> t_keys_list t' = proper_part keq (t_keys_list t)
      else t' = t)"

definition rehash_ready :: "'k key_eq \<Rightarrow> ('k \<Rightarrow> int) \<Rightarrow> ('k, 'v) table \<Rightarrow> 'k list \<Rightarrow> bool" where
  "rehash_ready keq hf t ks \<longleftrightarrow>
     table_inv keq hf t \<and> all_proper keq t \<and> unique_keys keq (proper_keys keq ks) \<and>
     (\<forall>k \<in> set (proper_keys keq ks). \<forall>nd \<in> set (t_keys_list t). \<not> keq (fst nd) k)"

definition after_rehash ::
  "'k key_eq \<Rightarrow> ('k \<Rightarrow> int) \<Rightarrow> ('k, 'v) table \<Rightarrow> ('k, 'v) dll list \<Rightarrow> 'k list
     \<Rightarrow> ('k, 'v) table \<Rightarrow> bool" where
  "after_rehash keq hf t ob ks t' \<longleftrightarrow>
     table_inv keq hf t' \<and> grown t t' \<and> t_keys_list t' = t_keys_list t @ rehashed keq ob ks"

text \<open>How many doublings make room for \<open>k\<close> entries.\<close>

definition room :: "('k, 'v) table \<Rightarrow> nat \<Rightarrow> nat \<Rightarrow> bool" where
  "room t k d \<longleftrightarrow> 2 * real k \<le> t_load_factor t * real_of_int (t_capacity t) * 2 ^ d"

text \<open>\<open>doublings lf c k c'\<close>: the capacity \<open>c'\<close> comes from \<open>c\<close> by doublings, each
  of them made because \<open>k\<close> entries exceed the threshold at the capacity before it.\<close>

definition doublings :: "real \<Rightarrow> int \<Rightarrow> int \<Rightarrow> int \<Rightarrow> bool" where
  "doublings lf c k c' \<longleftrightarrow>
     (\<exists>d. c' = c * 2 ^ d \<and> (\<forall>j<d. lf < py_truediv k (c * 2 ^ j)))"

text \<open>\<open>cap_after lf c k0 k c'\<close>: with \<open>k0\<close> entries at capacity \<open>c\<close> either the threshold holds
  and the capacity stays, or it is exceeded and the capacity is doubled once and then again
  while the \<open>k\<close> entries that the rehash re-inserts exceed the threshold.\<close>

definition cap_after :: "real \<Rightarrow> int \<Rightarrow> int \<Rightarrow> int \<Rightarrow> int \<Rightarrow> bool" where
  "cap_after lf c k0 k c' \<longleftrightarrow>
     (\<not> lf < py_truediv k0 c \<and> c' = c) \<or> (lf < py_truediv k0 c \<and> doublings lf (c * 2) k c')"

definition resettled :: "('k, 'v) table \<Rightarrow> ('k, 'v) table \<Rightarrow> bool" where
  "resettled t t' \<longleftrightarrow>
     cap_after (t_load_factor t) (t_capacity t) (t_size t) (t_size t') (t_capacity t') \<and>
     \<not> load_exceeded t'"

definition set_settled :: "'k key_eq \<Rightarrow> ('k, 'v) table \<Rightarrow> 'k \<Rightarrow> ('k, 'v) table \<Rightarrow> bool" where
  "set_settled keq t key t' \<longleftrightarrow>
     (if dll_find keq (t_keys_list t) key \<noteq> None then t_capacity t' = t_capacity t
      else cap_after (t_load_factor t) (t_capacity t) (t_size t + 1) (t_size t') (t_capacity t') \<and>
           \<not> load_exceeded t')"

definition rehash_settled :: "('k, 'v) table \<Rightarrow> ('k, 'v) table \<Rightarrow> bool" where
  "rehash_settled t t' \<longleftrightarrow>
     doublings (t_load_factor t) (t_capacity t) (t_size t') (t_capacity t') \<and>
     (\<not> load_exceeded t \<longrightarrow> \<not> load_exceeded t')"

subsection \<open>Example tables\<close>

text \<open>
  Keys for running the theorems on concrete inputs: Python integers, which compare by value
  and hash to themselves when small, and \<^verbatim>\<open>float('nan')\<close>, which is hashable and compares
  unequal to everything, itself included. The outcomes below do not depend on the hash
  chosen for it. Values are integers.
\<close>

datatype ex_key = Num int | NaN

fun ex_eq :: "ex_key \<Rightarrow> ex_key \<Rightarrow> bool" where
  "ex_eq (Num a) (Num b) = (a = b)"
| "ex_eq (Num a) NaN = False"
| "ex_eq NaN k = False"

fun ex_hash :: "ex_key \<Rightarrow> int" where
  "ex_hash (Num a) = a"
| "ex_hash NaN = 0"

definition ex_new :: "(ex_key, int) table" where
  "ex_new = \<lparr>t_capacity = 2, t_load_factor = 3 / 4, t_buckets = [[], []],
             t_size = 0, t_keys_list = []\<rparr>"

definition ex_one :: "(ex_key, int) table" where
  "ex_one = \<lparr>t_capacity = 4, t_load_factor = 3 / 4, t_buckets = [[], [], [(Num 2, 20)], []],
             t_size = 1, t_keys_list = [(Num 2, 20)]\<rparr>"

definition ex_one_more :: "(ex_key, int) table" where
  "ex_one_more = \<lparr>t_capacity = 4, t_load_factor = 3 / 4,
                  t_buckets = [[], [], [(Num 2, 20)], [(Num 7, 70)]],
                  t_size = 2, t_keys_list = [(Num 2, 20), (Num 7, 70)]\<rparr>"

definition ex_two :: "(ex_key, int) table" where
  "ex_two = \<lparr>t_capacity = 4, t_load_factor = 3 / 4,
             t_buckets = [[], [(Num 1, 10)], [(Num 2, 20)], []],
             t_size = 2, t_keys_list = [(Num 1, 10), (Num 2, 20)]\<rparr>"

definition ex_reinserted :: "(ex_key, int) table" where
  "ex_reinserted = \<lparr>t_capacity = 4, t_load_factor = 3 / 4,
                    t_buckets = [[], [(Num 5, 51)], [(Num 2, 21)], []],
                    t_size = 2, t_keys_list = [(Num 5, 51), (Num 2, 21)]\<rparr>"



definition ex_four :: "(ex_key, int) table" where
  "ex_four = \<lparr>t_capacity = 8, t_load_factor = 3 / 4,
              t_buckets = [[], [(Num 1, 10)], [(Num 2, 20)], [(Num 3, 30)], [(Num 4, 40)],
                           [], [], []],
              t_size = 4,
              t_keys_list = [(Num 1, 10), (Num 2, 20), (Num 3, 30), (Num 4, 40)]\<rparr>"


text \<open>Tables that hold \<^verbatim>\<open>float('nan')\<close> as a key.\<close>

definition ex_nan :: "(ex_key, int) table" where
  "ex_nan = \<lparr>t_capacity = 2, t_load_factor = 3 / 4, t_buckets = [[(NaN, 1)], []],
             t_size = 1, t_keys_list = [(NaN, 1)]\<rparr>"

definition ex_nan_dropped :: "(ex_key, int) table" where
  "ex_nan_dropped = \<lparr>t_capacity = 4, t_load_factor = 3 / 4,
                     t_buckets = [[], [(Num 1, 2)], [], []],
                     t_size = 1, t_keys_list = [(Num 1, 2)]\<rparr>"

definition ex_eight :: "(ex_key, int) table" where
  "ex_eight = \<lparr>t_capacity = 8, t_load_factor = 3 / 4,
               t_buckets = [[], [], [], [], [], [], [], []],
               t_size = 0, t_keys_list = []\<rparr>"

definition ex_eight_nan :: "(ex_key, int) table" where
  "ex_eight_nan = \<lparr>t_capacity = 8, t_load_factor = 3 / 4,
                   t_buckets = [[(NaN, 1)], [], [], [], [], [], [], []],
                   t_size = 1, t_keys_list = [(NaN, 1)]\<rparr>"



definition ex_nan_and_two :: "(ex_key, int) table" where
  "ex_nan_and_two = \<lparr>t_capacity = 8, t_load_factor = 3 / 4,
                     t_buckets = [[(NaN, 1)], [], [(Num 2, 20)], [], [], [], [], []],
                     t_size = 2, t_keys_list = [(NaN, 1), (Num 2, 20)]\<rparr>"

definition ex_nan_and_two_updated :: "(ex_key, int) table" where
  "ex_nan_and_two_updated = \<lparr>t_capacity = 8, t_load_factor = 3 / 4,
                     t_buckets = [[(NaN, 1)], [], [(Num 2, 22)], [], [], [], [], []],
                     t_size = 2, t_keys_list = [(NaN, 1), (Num 2, 22)]\<rparr>"

text \<open>The doubles written \<^verbatim>\<open>0.4\<close> and \<^verbatim>\<open>0.3333333333333333\<close> in Python, as the
  rationals that they are.\<close>

definition double_0_4 :: real where
  "double_0_4 = 3602879701896397 / 9007199254740992"

definition double_third :: real where
  "double_third = 6004799503160661 / 18014398509481984"

definition ex_tiny :: "(ex_key, int) table" where
  "ex_tiny = \<lparr>t_capacity = 1, t_load_factor = double_0_4, t_buckets = [[]],
              t_size = 0, t_keys_list = []\<rparr>"

definition ex_tiny_grown :: "(ex_key, int) table" where
  "ex_tiny_grown = \<lparr>t_capacity = 4, t_load_factor = double_0_4,
                    t_buckets = [[], [], [], [(Num 7, 70)]],
                    t_size = 1, t_keys_list = [(Num 7, 70)]\<rparr>"

definition ex_third :: "(ex_key, int) table" where
  "ex_third = \<lparr>t_capacity = 3, t_load_factor = double_third, t_buckets = [[], [], []],
               t_size = 0, t_keys_list = []\<rparr>"

definition ex_third_one :: "(ex_key, int) table" where
  "ex_third_one = \<lparr>t_capacity = 3, t_load_factor = double_third,
                   t_buckets = [[], [(Num 7, 70)], []],
                   t_size = 1, t_keys_list = [(Num 7, 70)]\<rparr>"

section \<open>Lemmas\<close>

subsection \<open>Float division\<close>

declare normalize.simps [simp del]

lemma normalize_spec:
  "0 < num \<Longrightarrow> 0 < den \<Longrightarrow> normalize num den = (n, d) \<Longrightarrow>
     0 < n \<and> 0 < d \<and> d * 2 ^ 52 \<le> n \<and> n < d * 2 ^ 53 \<and>
     (\<exists>i j. n = num * 2 ^ i \<and> d = den * 2 ^ j)"
proof (induction num den rule: normalize.induct)
  case (1 num den)
  show ?case
  proof (cases "num < den * 2 ^ 52")
    case True
    then have r: "normalize (2 * num) den = (n, d)"
      using "1.prems" by (subst (asm) normalize.simps) simp
    have "0 < n \<and> 0 < d \<and> d * 2 ^ 52 \<le> n \<and> n < d * 2 ^ 53 \<and>
          (\<exists>i j. n = (2 * num) * 2 ^ i \<and> d = den * 2 ^ j)"
      using "1.prems"(1,2) True r by (intro "1.IH"(1)) simp_all
    then obtain i j where "0 < n" "0 < d" "d * 2 ^ 52 \<le> n" "n < d * 2 ^ 53"
      "n = (2 * num) * 2 ^ i" "d = den * 2 ^ j"
      by blast
    moreover from this have "n = num * 2 ^ Suc i" by simp
    ultimately show ?thesis by blast
  next
    case False
    note nlt = False
    show ?thesis
    proof (cases "den * 2 ^ 53 \<le> num")
      case True
      then have r: "normalize num (2 * den) = (n, d)"
        using "1.prems" nlt by (subst (asm) normalize.simps) simp
      have "0 < n \<and> 0 < d \<and> d * 2 ^ 52 \<le> n \<and> n < d * 2 ^ 53 \<and>
            (\<exists>i j. n = num * 2 ^ i \<and> d = (2 * den) * 2 ^ j)"
        using "1.prems"(1,2) nlt True r by (intro "1.IH"(2)) simp_all
      then obtain i j where "0 < n" "0 < d" "d * 2 ^ 52 \<le> n" "n < d * 2 ^ 53"
        "n = num * 2 ^ i" "d = (2 * den) * 2 ^ j"
        by blast
      moreover from this have "d = den * 2 ^ Suc j" by simp
      ultimately show ?thesis by blast
    next
      case False
      then have "n = num" "d = den"
        using "1.prems" nlt by (subst (asm) normalize.simps, simp)+
      moreover have "num = num * 2 ^ 0" "den = den * 2 ^ 0" by simp_all
      ultimately show ?thesis using "1.prems"(1,2) nlt False by (metis not_less)
    qed
  qed
qed

lemma round_half_even_floor:
  "\<lfloor>x\<rfloor> \<le> round_half_even x \<and> round_half_even x \<le> \<lfloor>x\<rfloor> + 1"
  by (simp add: round_half_even_def Let_def)

lemma round_half_even_of_int: "round_half_even (of_int k) = k"
  by (simp add: round_half_even_def Let_def)

lemma round_half_even_mono:
  assumes "x \<le> y"
  shows "round_half_even x \<le> round_half_even y"
proof (cases "\<lfloor>x\<rfloor> < \<lfloor>y\<rfloor>")
  case True
  have "round_half_even x \<le> \<lfloor>x\<rfloor> + 1" using round_half_even_floor [of x] by simp
  also have "\<dots> \<le> \<lfloor>y\<rfloor>" using True by simp
  also have "\<dots> \<le> round_half_even y" using round_half_even_floor [of y] by simp
  finally show ?thesis .
next
  case False
  then have f: "\<lfloor>x\<rfloor> = \<lfloor>y\<rfloor>" using assms floor_mono [of x y] by simp
  then have "x - of_int \<lfloor>x\<rfloor> \<le> y - of_int \<lfloor>y\<rfloor>" using assms by simp
  then show ?thesis using f by (auto simp: round_half_even_def Let_def)
qed

lemma round_half_even_range:
  assumes "2 ^ 52 \<le> x" and "x \<le> 2 ^ 53"
  shows "2 ^ 52 \<le> round_half_even x \<and> round_half_even x \<le> 2 ^ 53"
proof -
  have "round_half_even (of_int (2 ^ 52)) \<le> round_half_even x"
    using assms(1) by (intro round_half_even_mono) simp
  moreover have "round_half_even x \<le> round_half_even (of_int (2 ^ 53))"
    using assms(2) by (intro round_half_even_mono) simp
  ultimately show ?thesis by (simp only: round_half_even_of_int)
qed

text \<open>The float quotient of positive integers as a significand and two shifts.\<close>

lemma py_truediv_shape:
  assumes "0 < a" and "0 < b"
  obtains i j r where "py_truediv a b = of_int r * 2 ^ j / 2 ^ i"
    and "r = round_half_even (of_int (a * 2 ^ i) / of_int (b * 2 ^ j))"
    and "b * 2 ^ j * 2 ^ 52 \<le> a * 2 ^ i" and "a * 2 ^ i < b * 2 ^ j * 2 ^ 53"
proof -
  obtain n d where nd: "normalize a b = (n, d)" by (cases "normalize a b")
  have "0 < n \<and> 0 < d \<and> d * 2 ^ 52 \<le> n \<and> n < d * 2 ^ 53 \<and>
        (\<exists>i j. n = a * 2 ^ i \<and> d = b * 2 ^ j)"
    using assms nd by (rule normalize_spec)
  then obtain i j where s: "0 < n" "0 < d" "d * 2 ^ 52 \<le> n" "n < d * 2 ^ 53"
    and n: "n = a * 2 ^ i" and d: "d = b * 2 ^ j"
    by blast
  let ?x = "real_of_int n / real_of_int d"
  let ?r = "round_half_even ?x"
  have e: "(real_of_int a / real_of_int b) / ?x = 2 ^ j / 2 ^ i"
    using assms by (simp add: n d field_simps)
  have "py_truediv a b = of_int ?r * ((of_int a / of_int b) / ?x)"
    using assms nd by (simp add: py_truediv_def)
  then have "py_truediv a b = of_int ?r * 2 ^ j / 2 ^ i" by (simp only: e times_divide_eq_right)
  moreover have "?r = round_half_even (of_int (a * 2 ^ i) / of_int (b * 2 ^ j))"
    by (simp only: n d)
  moreover have "b * 2 ^ j * 2 ^ 52 \<le> a * 2 ^ i" "a * 2 ^ i < b * 2 ^ j * 2 ^ 53"
    using s(3,4) by (simp_all only: n d)
  ultimately show ?thesis by (rule that)
qed

lemma py_truediv_nonneg: "0 \<le> a \<Longrightarrow> 0 < b \<Longrightarrow> 0 \<le> py_truediv a b"
proof (cases "a = 0")
  case True
  then show ?thesis by (simp add: py_truediv_def)
next
  case False
  assume "0 \<le> a" "0 < b"
  then have a: "0 < a" using False by simp
  obtain i j r where p: "py_truediv a b = of_int r * 2 ^ j / 2 ^ i"
    and r: "r = round_half_even (of_int (a * 2 ^ i) / of_int (b * 2 ^ j))"
    and lo: "b * 2 ^ j * 2 ^ 52 \<le> a * 2 ^ i" and hi: "a * 2 ^ i < b * 2 ^ j * 2 ^ 53"
    using py_truediv_shape [OF a \<open>0 < b\<close>] by blast
  have "0 \<le> real_of_int (a * 2 ^ i) / real_of_int (b * 2 ^ j)"
    using a \<open>0 < b\<close> by simp
  then have "0 \<le> \<lfloor>real_of_int (a * 2 ^ i) / real_of_int (b * 2 ^ j)\<rfloor>" by simp
  then have "0 \<le> r" using round_half_even_floor [of "real_of_int (a * 2 ^ i) / real_of_int (b * 2 ^ j)"] r
    by linarith
  then show ?thesis by (simp add: p)
qed

lemma scaled_quotient_range:
  assumes "b * 2 ^ j * 2 ^ 52 \<le> a * 2 ^ i" and "a * 2 ^ i < b * 2 ^ j * 2 ^ 53" and "0 < (b :: int)"
  shows "2 ^ 52 \<le> real_of_int (a * 2 ^ i) / real_of_int (b * 2 ^ j)"
    and "real_of_int (a * 2 ^ i) / real_of_int (b * 2 ^ j) \<le> 2 ^ 53"
proof -
  define n where "n = a * 2 ^ i"
  define d where "d = b * 2 ^ j"
  have d: "0 < real_of_int d" using assms(3) by (simp add: d_def)
  have "real_of_int (d * 2 ^ 52) \<le> real_of_int n"
    using assms(1) unfolding n_def d_def by (simp only: of_int_le_iff)
  then have "2 ^ 52 * real_of_int d \<le> real_of_int n" by (simp add: mult.commute)
  then have "2 ^ 52 \<le> real_of_int n / real_of_int d" using d by (simp only: pos_le_divide_eq)
  then show "2 ^ 52 \<le> real_of_int (a * 2 ^ i) / real_of_int (b * 2 ^ j)"
    by (simp only: n_def d_def)
  have "real_of_int n \<le> real_of_int (d * 2 ^ 53)"
    using assms(2) unfolding n_def d_def by (simp only: of_int_le_iff less_imp_le)
  then have "real_of_int n \<le> 2 ^ 53 * real_of_int d" by (simp add: mult.commute)
  then have "real_of_int n / real_of_int d \<le> 2 ^ 53" using d by (simp only: pos_divide_le_eq)
  then show "real_of_int (a * 2 ^ i) / real_of_int (b * 2 ^ j) \<le> 2 ^ 53"
    by (simp only: n_def d_def)
qed

lemma py_truediv_le_twice:
  assumes "0 \<le> a" and "0 < b"
  shows "py_truediv a b \<le> 2 * (of_int a / of_int b)"
proof (cases "a = 0")
  case True
  then show ?thesis by (simp add: py_truediv_def)
next
  case False
  then have a: "0 < a" using assms(1) by simp
  obtain i j r where p: "py_truediv a b = of_int r * 2 ^ j / 2 ^ i"
    and r: "r = round_half_even (of_int (a * 2 ^ i) / of_int (b * 2 ^ j))"
    and lo: "b * 2 ^ j * 2 ^ 52 \<le> a * 2 ^ i" and hi: "a * 2 ^ i < b * 2 ^ j * 2 ^ 53"
    using py_truediv_shape [OF a assms(2)] by blast
  define x where "x = real_of_int (a * 2 ^ i) / real_of_int (b * 2 ^ j)"
  define s :: real where "s = 2 ^ j / 2 ^ i"
  have s: "0 \<le> s" by (simp add: s_def)
  have "2 ^ 52 \<le> x" unfolding x_def using lo hi assms(2) by (rule scaled_quotient_range)
  then have x1: "1 \<le> x" by simp
  have "real_of_int r \<le> real_of_int (\<lfloor>x\<rfloor> + 1)"
    using round_half_even_floor [of x] r unfolding x_def by (simp only: of_int_le_iff)
  also have "\<dots> \<le> x + 1" by simp
  also have "\<dots> \<le> 2 * x" using x1 by simp
  finally have "real_of_int r \<le> 2 * x" .
  then have "real_of_int r * s \<le> (2 * x) * s" using s by (rule mult_right_mono)
  moreover have "x * s = real_of_int a / real_of_int b"
    using assms(2) by (simp add: x_def s_def field_simps)
  moreover have "py_truediv a b = real_of_int r * s" by (simp add: p s_def)
  ultimately show ?thesis by (simp add: mult.assoc)
qed

lemma two_powers_le:
  assumes "(x :: int) * 2 ^ u * 2 ^ 52 < x * 2 ^ v * 2 ^ 53" and "0 < x"
  shows "u \<le> v"
proof (rule ccontr)
  assume "\<not> u \<le> v"
  then have "Suc v \<le> u" by simp
  then have "(2 :: int) ^ Suc v \<le> 2 ^ u" by (intro power_increasing) simp_all
  then have "x * 2 ^ Suc v \<le> x * 2 ^ u" using assms(2) by (intro mult_left_mono) simp_all
  then have "x * 2 ^ Suc v * 2 ^ 52 \<le> x * 2 ^ u * 2 ^ 52" by (intro mult_right_mono) simp_all
  moreover have "x * 2 ^ Suc v * 2 ^ 52 = x * 2 ^ v * 2 ^ 53" by simp
  ultimately show False using assms(1) by linarith
qed

lemma py_truediv_mono:
  assumes "0 \<le> a" and "a \<le> a'" and "0 < b"
  shows "py_truediv a b \<le> py_truediv a' b"
proof (cases "a = 0")
  case True
  then show ?thesis using py_truediv_nonneg [of a' b] assms by (simp add: py_truediv_def)
next
  case False
  then have a: "0 < a" and a': "0 < a'" using assms(1,2) by simp_all
  obtain i j r where p: "py_truediv a b = of_int r * 2 ^ j / 2 ^ i"
    and r: "r = round_half_even (of_int (a * 2 ^ i) / of_int (b * 2 ^ j))"
    and lo: "b * 2 ^ j * 2 ^ 52 \<le> a * 2 ^ i" and hi: "a * 2 ^ i < b * 2 ^ j * 2 ^ 53"
    using py_truediv_shape [OF a assms(3)] by blast
  obtain i' j' r' where p': "py_truediv a' b = of_int r' * 2 ^ j' / 2 ^ i'"
    and r': "r' = round_half_even (of_int (a' * 2 ^ i') / of_int (b * 2 ^ j'))"
    and lo': "b * 2 ^ j' * 2 ^ 52 \<le> a' * 2 ^ i'" and hi': "a' * 2 ^ i' < b * 2 ^ j' * 2 ^ 53"
    using py_truediv_shape [OF a' assms(3)] by blast
  have rr: "2 ^ 52 \<le> r \<and> r \<le> 2 ^ 53"
    unfolding r using scaled_quotient_range [OF lo hi assms(3)] by (rule round_half_even_range)
  have rr': "2 ^ 52 \<le> r' \<and> r' \<le> 2 ^ 53"
    unfolding r' using scaled_quotient_range [OF lo' hi' assms(3)] by (rule round_half_even_range)
  define I :: int where "I = 2 ^ i"
  define I' :: int where "I' = 2 ^ i'"
  define J :: int where "J = 2 ^ j"
  define J' :: int where "J' = 2 ^ j'"
  have pos: "0 < I" "0 < I'" "0 < J" "0 < J'" by (simp_all add: I_def I'_def J_def J'_def)
  have lo1: "b * J * 2 ^ 52 \<le> a * I" using lo by (simp only: I_def J_def)
  have hi1: "a' * I' < b * J' * 2 ^ 53" using hi' by (simp only: I'_def J'_def)
  have "b * (J * I') * 2 ^ 52 = (b * J * 2 ^ 52) * I'" by (simp add: algebra_simps)
  also have "\<dots> \<le> (a * I) * I'" using lo1 pos(2) by (intro mult_right_mono) simp_all
  also have "\<dots> \<le> (a' * I) * I'" using assms(2) pos by (intro mult_right_mono) simp_all
  also have "\<dots> = (a' * I') * I" by (simp add: algebra_simps)
  also have "\<dots> < (b * J' * 2 ^ 53) * I" using hi1 pos(1) by (intro mult_strict_right_mono)
  also have "\<dots> = b * (J' * I) * 2 ^ 53" by (simp add: algebra_simps)
  finally have "b * (J * I') * 2 ^ 52 < b * (J' * I) * 2 ^ 53" .
  moreover have "J * I' = 2 ^ (j + i')" "J' * I = 2 ^ (j' + i)"
    by (simp_all add: I_def I'_def J_def J'_def power_add)
  ultimately have "b * 2 ^ (j + i') * 2 ^ 52 < b * 2 ^ (j' + i) * 2 ^ 53" by simp
  then have uv: "j + i' \<le> j' + i" using assms(3) by (rule two_powers_le)
  define U :: real where "U = 2 ^ (j + i')"
  define V :: real where "V = 2 ^ (j' + i)"
  define W :: real where "W = 2 ^ (i + i')"
  have W: "0 < W" and U: "0 < U" and V: "0 < V" by (simp_all add: W_def U_def V_def)
  have cross: "real_of_int r * U \<le> real_of_int r' * V"
  proof (cases "j + i' = j' + i")
    case False
    then have "Suc (j + i') \<le> j' + i" using uv by simp
    then have "(2 :: real) ^ Suc (j + i') \<le> 2 ^ (j' + i)" by (intro power_increasing) simp_all
    then have le: "2 * U \<le> V" by (simp add: U_def V_def)
    have "real_of_int r \<le> 2 ^ 53" using rr by (metis of_int_le_iff of_int_numeral of_int_power)
    then have "real_of_int r * U \<le> 2 ^ 53 * U" using U by (intro mult_right_mono) simp_all
    also have "\<dots> = 2 ^ 52 * (2 * U)" by simp
    also have "\<dots> \<le> 2 ^ 52 * V" using le by (intro mult_left_mono) simp_all
    also have "\<dots> \<le> real_of_int r' * V"
    proof -
      have "2 ^ 52 \<le> real_of_int r'" using rr' by (metis of_int_le_iff of_int_numeral of_int_power)
      then show ?thesis using V by (intro mult_right_mono) simp_all
    qed
    finally show ?thesis .
  next
    case True
    then have UV: "U = V" by (simp add: U_def V_def)
    define D where "D = real_of_int b * U"
    have D: "0 < D" using assms(3) U by (simp add: D_def)
    have x: "real_of_int (a * 2 ^ i) / real_of_int (b * 2 ^ j) = real_of_int a * W / D"
      by (simp add: W_def D_def U_def power_add)
    have x': "real_of_int (a' * 2 ^ i') / real_of_int (b * 2 ^ j') = real_of_int a' * W / D"
      by (simp add: W_def D_def UV V_def power_add)
    have "real_of_int a * W \<le> real_of_int a' * W"
      using assms(2) W by (intro mult_right_mono) simp_all
    then have "real_of_int a * W / D \<le> real_of_int a' * W / D"
      using D by (intro divide_right_mono) simp_all
    then have "r \<le> r'" unfolding r r' x x' by (rule round_half_even_mono)
    then have "real_of_int r \<le> real_of_int r'" by simp
    then show ?thesis using V UV by (simp add: mult_right_mono)
  qed
  have e: "real_of_int r * 2 ^ j / 2 ^ i = real_of_int r * U / W"
    by (simp add: U_def W_def power_add)
  have e': "real_of_int r' * 2 ^ j' / 2 ^ i' = real_of_int r' * V / W"
    by (simp add: V_def W_def power_add)
  have "real_of_int r * U / W \<le> real_of_int r' * V / W"
    using cross W by (intro divide_right_mono) simp_all
  then show ?thesis by (simp only: p p' e e')
qed

subsection \<open>Lists and buckets\<close>

lemma contract_sym: "key_contract keq hf \<Longrightarrow> keq a b \<Longrightarrow> keq b a"
  unfolding key_contract_def by blast

lemma contract_trans: "key_contract keq hf \<Longrightarrow> keq a b \<Longrightarrow> keq b c \<Longrightarrow> keq a c"
  unfolding key_contract_def by blast

lemma contract_hash: "key_contract keq hf \<Longrightarrow> keq a b \<Longrightarrow> hf a = hf b"
  unfolding key_contract_def by blast

lemma contract_proper_left: "key_contract keq hf \<Longrightarrow> keq a b \<Longrightarrow> keq a a"
  unfolding key_contract_def by blast

lemma contract_proper_right: "key_contract keq hf \<Longrightarrow> keq a b \<Longrightarrow> keq b b"
  unfolding key_contract_def by blast

lemma contract_index:
  "key_contract keq hf \<Longrightarrow> keq a b \<Longrightarrow> nat (hf a mod c) = nat (hf b mod c)"
  by (simp add: contract_hash)

lemma dll_find_None_iff:
  "dll_find keq xs key = None \<longleftrightarrow> (\<forall>nd \<in> set xs. \<not> keq (fst nd) key)"
  by (induction xs) auto

lemma dll_find_improper:
  "key_contract keq hf \<Longrightarrow> \<not> keq key key \<Longrightarrow> dll_find keq xs key = None"
  using contract_proper_right [of keq hf _ key] by (auto simp: dll_find_None_iff)

lemma dll_find_Some: "dll_find keq xs key = Some nd \<Longrightarrow> keq (fst nd) key \<and> nd \<in> set xs"
  by (induction xs) (auto split: if_splits)

lemma unique_keys_append:
  "unique_keys keq (ks @ [k]) \<longleftrightarrow> unique_keys keq ks \<and> (\<forall>k' \<in> set ks. \<not> keq k' k)"
  by (induction ks) auto

lemma unique_keys_filter: "unique_keys keq ks \<Longrightarrow> unique_keys keq (filter P ks)"
  by (induction ks) auto

lemma dll_find_distinct:
  "unique_keys keq (map fst xs) \<Longrightarrow> nd \<in> set xs \<Longrightarrow> keq (fst nd) (fst nd) \<Longrightarrow>
   dll_find keq xs (fst nd) = Some nd"
proof (induction xs)
  case Nil
  then show ?case by simp
next
  case (Cons x xs)
  show ?case
  proof (cases "keq (fst x) (fst nd)")
    case True
    have "x = nd"
    proof (rule ccontr)
      assume "x \<noteq> nd"
      then have "nd \<in> set xs" using Cons.prems(2) by simp
      then have "fst nd \<in> set (map fst xs)" by simp
      then show False using Cons.prems(1) True by auto
    qed
    then show ?thesis using True by simp
  next
    case False
    then have "x \<noteq> nd" using Cons.prems(3) by auto
    then have "nd \<in> set xs" using Cons.prems(2) by simp
    moreover have "unique_keys keq (map fst xs)" using Cons.prems(1) by simp
    ultimately have "dll_find keq xs (fst nd) = Some nd"
      using Cons.prems(3) by (intro Cons.IH)
    then show ?thesis using False by simp
  qed
qed

lemma set_value_absent: "dll_find keq xs key = None \<Longrightarrow> set_value keq xs key val = xs"
  by (induction xs) (auto split: if_splits)

lemma dll_remove_absent: "dll_find keq xs key = None \<Longrightarrow> dll_remove keq xs key = xs"
  by (induction xs) (auto split: if_splits)

lemma map_fst_set_value: "map fst (set_value keq xs key val) = map fst xs"
  by (induction xs) auto

lemma length_set_value: "length (set_value keq xs key val) = length xs"
  by (induction xs) auto

lemma dll_find_filter:
  assumes "\<And>a. keq a key \<Longrightarrow> f a = f key"
  shows "dll_find keq (filter (\<lambda>nd. f (fst nd) = i) xs) key
           = (if f key = i then dll_find keq xs key else None)"
  using assms by (induction xs) auto

lemma set_value_filter:
  assumes H: "\<And>a. keq a key \<Longrightarrow> f a = f key"
  shows "set_value keq (filter (\<lambda>nd. f (fst nd) = i) xs) key val
           = filter (\<lambda>nd. f (fst nd) = i) (set_value keq xs key val)"
proof (induction xs)
  case Nil
  show ?case by simp
next
  case (Cons nd xs)
  show ?case
  proof (cases "keq (fst nd) key \<and> f key \<noteq> i")
    case True
    then have "f (fst nd) = f key" using H by simp
    moreover have "dll_find keq (filter (\<lambda>nd. f (fst nd) = i) xs) key = None"
      using True H by (simp add: dll_find_filter)
    ultimately show ?thesis using True by (simp add: set_value_absent)
  next
    case False
    then show ?thesis using Cons H by auto
  qed
qed

lemma dll_remove_filter:
  assumes H: "\<And>a. keq a key \<Longrightarrow> f a = f key"
  shows "dll_remove keq (filter (\<lambda>nd. f (fst nd) = i) xs) key
           = filter (\<lambda>nd. f (fst nd) = i) (dll_remove keq xs key)"
proof (induction xs)
  case Nil
  show ?case by simp
next
  case (Cons nd xs)
  show ?case
  proof (cases "keq (fst nd) key \<and> f key \<noteq> i")
    case True
    then have "f (fst nd) = f key" using H by simp
    moreover have "dll_find keq (filter (\<lambda>nd. f (fst nd) = i) xs) key = None"
      using True H by (simp add: dll_find_filter)
    ultimately show ?thesis using True by (simp add: dll_remove_absent)
  next
    case False
    then show ?thesis using Cons H by auto
  qed
qed

lemma bucket_of_find:
  "key_contract keq hf \<Longrightarrow>
   dll_find keq (bucket_of hf c kl i) key
     = (if nat (hf key mod c) = i then dll_find keq kl key else None)"
  unfolding bucket_of_def by (rule dll_find_filter) (rule contract_index)

lemma bucket_of_set_value:
  "key_contract keq hf \<Longrightarrow>
   set_value keq (bucket_of hf c kl i) key val = bucket_of hf c (set_value keq kl key val) i"
  unfolding bucket_of_def by (rule set_value_filter) (rule contract_index)

lemma bucket_of_remove:
  "key_contract keq hf \<Longrightarrow>
   dll_remove keq (bucket_of hf c kl i) key = bucket_of hf c (dll_remove keq kl key) i"
  unfolding bucket_of_def by (rule dll_remove_filter) (rule contract_index)

lemma bucket_of_append:
  "bucket_of hf c (kl @ [(key, val)]) i
     = (if nat (hf key mod c) = i then bucket_of hf c kl i @ [(key, val)] else bucket_of hf c kl i)"
  by (simp add: bucket_of_def)

lemma bucket_of_other_set_value:
  assumes "key_contract keq hf" and "nat (hf key mod c) \<noteq> i"
  shows "bucket_of hf c (set_value keq kl key val) i = bucket_of hf c kl i"
proof -
  have "dll_find keq (bucket_of hf c kl i) key = None"
    using assms by (simp add: bucket_of_find)
  then have "set_value keq (bucket_of hf c kl i) key val = bucket_of hf c kl i"
    by (rule set_value_absent)
  then show ?thesis using assms(1) by (simp add: bucket_of_set_value)
qed

lemma bucket_of_other_remove:
  assumes "key_contract keq hf" and "nat (hf key mod c) \<noteq> i"
  shows "bucket_of hf c (dll_remove keq kl key) i = bucket_of hf c kl i"
proof -
  have "dll_find keq (bucket_of hf c kl i) key = None"
    using assms by (simp add: bucket_of_find)
  then have "dll_remove keq (bucket_of hf c kl i) key = bucket_of hf c kl i"
    by (rule dll_remove_absent)
  then show ?thesis using assms(1) by (simp add: bucket_of_remove)
qed

lemma inv_index_in_range:
  "table_inv keq hf t \<Longrightarrow> t_capacity t \<noteq> 0 \<and> hash_index hf t key < length (t_buckets t)"
  by (simp add: table_inv_def hash_index_def)

lemma buckets_update:
  "i < n \<Longrightarrow> (\<And>j. j < n \<Longrightarrow> j \<noteq> i \<Longrightarrow> F' j = F j) \<Longrightarrow> F' i = G
     \<Longrightarrow> (map F [0..<n])[i := G] = map F' [0..<n]"
  by (auto intro!: nth_equalityI simp: nth_list_update)

lemma inv_bucket:
  "table_inv keq hf t \<Longrightarrow>
     t_buckets t ! hash_index hf t key
       = bucket_of hf (t_capacity t) (t_keys_list t) (hash_index hf t key)"
  by (simp add: table_inv_def hash_index_def)

lemma inv_find:
  "key_contract keq hf \<Longrightarrow> table_inv keq hf t \<Longrightarrow>
     dll_find keq (t_buckets t ! hash_index hf t key) key = dll_find keq (t_keys_list t) key"
  by (simp add: inv_bucket bucket_of_find) (simp add: hash_index_def)

lemma inv_update:
  assumes "key_contract keq hf" and "table_inv keq hf t"
  shows "table_inv keq hf
     (t\<lparr>t_buckets := (t_buckets t)[hash_index hf t key :=
                         set_value keq (t_buckets t ! hash_index hf t key) key val],
        t_keys_list := set_value keq (t_keys_list t) key val\<rparr>)"
proof -
  let ?c = "t_capacity t" and ?kl = "t_keys_list t" and ?i = "hash_index hf t key"
  have c: "0 < ?c" and b: "t_buckets t = map (bucket_of hf ?c ?kl) [0..<nat ?c]"
    using assms(2) by (simp_all add: table_inv_def)
  have i: "?i < nat ?c" using c by (simp add: hash_index_def)
  have "(map (bucket_of hf ?c ?kl) [0..<nat ?c])[?i := set_value keq (bucket_of hf ?c ?kl ?i) key val]
          = map (bucket_of hf ?c (set_value keq ?kl key val)) [0..<nat ?c]"
    using i assms(1) by (intro buckets_update)
      (simp_all add: bucket_of_set_value bucket_of_other_set_value hash_index_def)
  then show ?thesis
    using assms(2) i by (simp add: table_inv_def map_fst_set_value length_set_value)
qed

lemma inv_append:
  assumes "table_inv keq hf t" and "dll_find keq (t_keys_list t) key = None"
  shows "table_inv keq hf
     (t\<lparr>t_buckets := (t_buckets t)[hash_index hf t key :=
                         dll_append (t_buckets t ! hash_index hf t key) key val],
        t_keys_list := dll_append (t_keys_list t) key val,
        t_size := t_size t + 1\<rparr>)"
proof -
  let ?c = "t_capacity t" and ?kl = "t_keys_list t" and ?i = "hash_index hf t key"
  have c: "0 < ?c" and b: "t_buckets t = map (bucket_of hf ?c ?kl) [0..<nat ?c]"
    using assms(1) by (simp_all add: table_inv_def)
  have i: "?i < nat ?c" using c by (simp add: hash_index_def)
  have "(map (bucket_of hf ?c ?kl) [0..<nat ?c])[?i := bucket_of hf ?c ?kl ?i @ [(key, val)]]
          = map (bucket_of hf ?c (?kl @ [(key, val)])) [0..<nat ?c]"
    using i by (intro buckets_update) (simp_all add: bucket_of_append hash_index_def)
  moreover have "unique_keys keq (map fst ?kl @ [key])"
    using assms by (simp add: unique_keys_append table_inv_def dll_find_None_iff)
  ultimately show ?thesis
    using assms(1) i by (simp add: table_inv_def dll_append_def)
qed

lemma set_dll_remove: "set (dll_remove keq xs key) \<subseteq> set xs"
  by (induction xs) auto

lemma unique_keys_remove:
  "unique_keys keq (map fst xs) \<Longrightarrow> unique_keys keq (map fst (dll_remove keq xs key))"
proof (induction xs)
  case Nil
  show ?case by simp
next
  case (Cons nd xs)
  then show ?case using set_dll_remove [of keq xs key] by auto
qed

lemma length_dll_remove:
  "dll_find keq xs key \<noteq> None \<Longrightarrow> Suc (length (dll_remove keq xs key)) = length xs"
  by (induction xs) (auto split: if_splits)

lemma inv_remove:
  assumes "key_contract keq hf" and "table_inv keq hf t"
    and "dll_find keq (t_keys_list t) key \<noteq> None"
  shows "table_inv keq hf
     (t\<lparr>t_buckets := (t_buckets t)[hash_index hf t key :=
                         dll_remove keq (t_buckets t ! hash_index hf t key) key],
        t_keys_list := dll_remove keq (t_keys_list t) key,
        t_size := t_size t - 1\<rparr>)"
proof -
  let ?c = "t_capacity t" and ?kl = "t_keys_list t" and ?i = "hash_index hf t key"
  have c: "0 < ?c" and b: "t_buckets t = map (bucket_of hf ?c ?kl) [0..<nat ?c]"
    using assms(2) by (simp_all add: table_inv_def)
  have i: "?i < nat ?c" using c by (simp add: hash_index_def)
  have "(map (bucket_of hf ?c ?kl) [0..<nat ?c])[?i := dll_remove keq (bucket_of hf ?c ?kl ?i) key]
          = map (bucket_of hf ?c (dll_remove keq ?kl key)) [0..<nat ?c]"
    using i assms(1) by (intro buckets_update)
      (simp_all add: bucket_of_remove bucket_of_other_remove hash_index_def)
  moreover have "int (length (dll_remove keq ?kl key)) = int (length ?kl) - 1"
    using length_dll_remove [OF assms(3)] by simp
  ultimately show ?thesis
    using assms(2) i by (simp add: table_inv_def unique_keys_remove)
qed

lemma inv_reset:
  "0 < new_capacity \<Longrightarrow> 0 < t_load_factor t \<Longrightarrow>
   table_inv keq hf (t\<lparr>t_capacity := new_capacity, t_buckets := replicate (nat new_capacity) [],
                       t_size := 0, t_keys_list := []\<rparr>)"
  by (auto simp: table_inv_def bucket_of_def intro!: nth_equalityI)

lemma find_in_buckets_map:
  "key_contract keq hf \<Longrightarrow>
   find_in_buckets keq (map (bucket_of hf c kl) js) key
     = (if nat (hf key mod c) \<in> set js then dll_find keq kl key else None)"
  by (induction js) (auto simp: bucket_of_find split: option.splits)

lemma inv_find_in_buckets:
  "key_contract keq hf \<Longrightarrow> table_inv keq hf t \<Longrightarrow>
   find_in_buckets keq (t_buckets t) key = dll_find keq (t_keys_list t) key"
  by (simp add: table_inv_def find_in_buckets_map)

lemma find_in_buckets_Some: "find_in_buckets keq ob key = Some nd \<Longrightarrow> keq (fst nd) key"
  by (induction ob) (auto split: option.splits dest: dll_find_Some)

lemma rehashed_all:
  "(\<And>nd. nd \<in> set kl \<Longrightarrow>
      find_in_buckets keq ob (fst nd) = (if keq (fst nd) (fst nd) then Some nd else None))
   \<Longrightarrow> rehashed keq ob (map fst kl) = proper_part keq kl"
  by (induction kl) (auto simp: proper_part_def)

lemma inv_rehashed:
  assumes "key_contract keq hf" and "table_inv keq hf t"
  shows "rehashed keq (t_buckets t) (dll_iter (t_keys_list t)) = proper_part keq (t_keys_list t)"
proof -
  have d: "unique_keys keq (map fst (t_keys_list t))"
    using assms(2) by (simp add: table_inv_def)
  have "find_in_buckets keq (t_buckets t) (fst nd)
          = (if keq (fst nd) (fst nd) then Some nd else None)"
    if "nd \<in> set (t_keys_list t)" for nd
    using that d assms dll_find_improper [OF assms(1), of "fst nd" "t_keys_list t"]
    by (simp add: inv_find_in_buckets dll_find_distinct)
  then show ?thesis unfolding dll_iter_def by (rule rehashed_all)
qed

lemma length_proper_part: "length (proper_part keq kl) \<le> length kl"
  by (simp add: proper_part_def)

lemma proper_part_all: "(\<forall>nd \<in> set kl. keq (fst nd) (fst nd)) \<Longrightarrow> proper_part keq kl = kl"
  by (simp add: proper_part_def)

lemma proper_part_append:
  "proper_part keq (kl @ kl') = proper_part keq kl @ proper_part keq kl'"
  by (simp add: proper_part_def)

lemma dll_find_proper_part:
  assumes "key_contract keq hf"
  shows "dll_find keq (proper_part keq kl) key = dll_find keq kl key"
proof (induction kl)
  case Nil
  show ?case by (simp add: proper_part_def)
next
  case (Cons nd kl)
  have "keq (fst nd) (fst nd)" if "keq (fst nd) key"
    using assms that by (rule contract_proper_left)
  then show ?case using Cons by (auto simp: proper_part_def)
qed

lemma put_absent: "dll_find keq kl key = None \<Longrightarrow> put keq kl key val = kl @ [(key, val)]"
  by (simp add: put_def)

lemma all_proper_appended:
  "all_proper keq t \<Longrightarrow> keq key key \<Longrightarrow>
   proper_part keq (t_keys_list t @ [(key, val)]) = t_keys_list t @ [(key, val)]"
  by (simp add: all_proper_def proper_part_def)

subsection \<open>Soundness of \<^verbatim>\<open>__setitem__\<close>\<close>

declare setitem.simps [simp del] check_resize.simps [simp del] resize.simps [simp del]
declare nts_setitem.simps [simp del] nts_check_resize.simps [simp del] nts_resize.simps [simp del]

lemma resize_unfold:
  "resize keq hf n t new_capacity =
     (if \<not> load_exceeded t then Some t
      else case n of
        0 \<Rightarrow> None
      | Suc m \<Rightarrow>
          rehash keq hf m
            (t\<lparr>t_capacity := new_capacity, t_buckets := replicate (nat new_capacity) [],
               t_size := 0, t_keys_list := []\<rparr>)
            (t_buckets t) (dll_iter (t_keys_list t)))"
  by (simp add: resize.simps load_exceeded_def not_less)

lemma setitem_sound_packed:
  shows "key_contract keq hf \<Longrightarrow> table_inv keq hf t \<Longrightarrow> setitem keq hf n t key val = Some t' \<Longrightarrow>
           after_set keq hf t key val t'"
    and "key_contract keq hf \<Longrightarrow> table_inv keq hf t \<Longrightarrow> check_resize keq hf n t = Some t' \<Longrightarrow>
           after_check keq hf t t'"
    and "key_contract keq hf \<Longrightarrow> table_inv keq hf t \<Longrightarrow> t_capacity t < new_capacity \<Longrightarrow>
         resize keq hf n t new_capacity = Some t' \<Longrightarrow> after_check keq hf t t'"
    and "key_contract keq hf \<Longrightarrow> rehash_ready keq hf t ks \<Longrightarrow> rehash keq hf n t ob ks = Some t' \<Longrightarrow>
           after_rehash keq hf t ob ks t'"
proof (induction keq hf n t key val and keq hf n t and keq hf n t new_capacity and keq hf n t ob ks
       arbitrary: t' and t' and t' and t'
       rule: setitem_check_resize_resize_rehash.induct)
  case (1 keq hf n t key val)
  note E = "1.prems"(1)
  let ?i = "hash_index hf t key"
  let ?b = "t_buckets t ! ?i"
  have f: "dll_find keq ?b key = dll_find keq (t_keys_list t) key"
    using E "1.prems"(2) by (rule inv_find)
  show ?case
  proof (cases "dll_find keq (t_keys_list t) key")
    case None
    let ?t1 = "t\<lparr>t_buckets := (t_buckets t)[?i := dll_append ?b key val],
                  t_keys_list := dll_append (t_keys_list t) key val,
                  t_size := t_size t + 1\<rparr>"
    have c: "check_resize keq hf n ?t1 = Some t'"
      using "1.prems"(3) None f by (simp add: setitem.simps Let_def)
    have i: "table_inv keq hf ?t1" using "1.prems"(2) None by (rule inv_append)
    have o: "load_exceeded ?t1 \<longleftrightarrow> overfull t" by (simp add: load_exceeded_def overfull_def)
    have "after_check keq hf ?t1 t'"
      using f None E i c by (intro "1.IH" [of ?i ?b]) simp_all
    then show ?thesis
      using None o by (auto simp: after_check_def after_set_def dll_append_def grown_def)
  next
    case (Some nd)
    then have "t' = t\<lparr>t_buckets := (t_buckets t)[?i := set_value keq ?b key val],
                       t_keys_list := set_value keq (t_keys_list t) key val\<rparr>"
      using "1.prems"(3) f by (simp add: setitem.simps Let_def)
    then show ?thesis
      using inv_update [OF E "1.prems"(2), of key val] Some
      by (simp add: after_set_def grown_def)
  qed
next
  case (2 keq hf n t)
  show ?case
  proof (cases "load_exceeded t")
    case True
    then have "resize keq hf n t (t_capacity t * 2) = Some t'"
      using "2.prems"(3) by (simp add: check_resize.simps)
    moreover have "t_capacity t < t_capacity t * 2"
      using "2.prems"(2) by (simp add: table_inv_def)
    ultimately show ?thesis using "2.IH" True "2.prems"(1,2) by blast
  next
    case False
    then show ?thesis
      using "2.prems" by (simp add: check_resize.simps after_check_def grown_def)
  qed
next
  case (3 keq hf n t new_capacity)
  note E = "3.prems"(1)
  show ?case
  proof (cases "load_exceeded t")
    case False
    then show ?thesis using "3.prems" by (simp add: resize_unfold after_check_def grown_def)
  next
    case True
    then obtain m where n: "n = Suc m"
      using "3.prems"(4) by (cases n) (simp_all add: resize_unfold)
    let ?t0 = "t\<lparr>t_capacity := new_capacity, t_buckets := replicate (nat new_capacity) [],
                  t_size := 0, t_keys_list := []\<rparr>"
    have r: "rehash keq hf m ?t0 (t_buckets t) (dll_iter (t_keys_list t)) = Some t'"
      using "3.prems"(4) True n by (simp add: resize_unfold)
    have pos: "0 < new_capacity" "0 < t_load_factor t"
      using "3.prems"(2,3) by (simp_all add: table_inv_def)
    have i: "table_inv keq hf ?t0" using pos by (rule inv_reset)
    have d: "unique_keys keq (proper_keys keq (dll_iter (t_keys_list t)))"
      using "3.prems"(2) by (simp add: table_inv_def dll_iter_def proper_keys_def unique_keys_filter)
    have a: "rehash_ready keq hf ?t0 (dll_iter (t_keys_list t))"
      using i d by (simp add: rehash_ready_def all_proper_def)
    have "after_rehash keq hf ?t0 (t_buckets t) (dll_iter (t_keys_list t)) t'"
      using True n E a r by (intro "3.IH" [of m]) (simp_all add: load_exceeded_def)
    then show ?thesis
      using inv_rehashed [OF E "3.prems"(2)] "3.prems"(3) True
      by (simp add: after_rehash_def after_check_def grown_def)
  qed
next
  case (4 keq hf n t old_buckets)
  then show ?case by (simp add: after_rehash_def rehash_ready_def grown_def)
next
  case (5 keq hf n t old_buckets key ks)
  note E = "5.prems"(1)
  have inv: "table_inv keq hf t" and ap: "all_proper keq t"
    and dk: "unique_keys keq (proper_keys keq (key # ks))"
    and ek: "\<forall>k \<in> set (proper_keys keq (key # ks)). \<forall>nd \<in> set (t_keys_list t). \<not> keq (fst nd) k"
    using "5.prems"(2) by (simp_all add: rehash_ready_def)
  show ?case
  proof (cases "find_in_buckets keq old_buckets key")
    case None
    have r: "rehash keq hf n t old_buckets ks = Some t'" using "5.prems"(3) None by simp
    have d: "unique_keys keq (proper_keys keq ks)"
      using dk by (simp add: proper_keys_def split: if_splits)
    have e: "\<forall>k \<in> set (proper_keys keq ks). \<forall>nd \<in> set (t_keys_list t). \<not> keq (fst nd) k"
      using ek by (simp add: proper_keys_def split: if_splits)
    have a: "rehash_ready keq hf t ks" using inv ap d e by (simp add: rehash_ready_def)
    have "after_rehash keq hf t old_buckets ks t'"
      using None E a r by (rule "5.IH"(1))
    then show ?thesis using None by (simp add: after_rehash_def)
  next
    case (Some nd)
    have "rehash keq hf n t old_buckets (key # ks)
            = (case setitem keq hf n t key (snd nd) of None \<Rightarrow> None
               | Some t1 \<Rightarrow> rehash keq hf n t1 old_buckets ks)"
      using Some by simp
    then obtain t1 where s: "setitem keq hf n t key (snd nd) = Some t1"
      and r: "rehash keq hf n t1 old_buckets ks = Some t'"
      using "5.prems"(3) by (cases "setitem keq hf n t key (snd nd)") simp_all
    have "keq (fst nd) key" using Some by (rule find_in_buckets_Some)
    with E have p: "keq key key" by (rule contract_proper_right)
    then have pk: "proper_keys keq (key # ks) = key # proper_keys keq ks"
      by (simp add: proper_keys_def)
    have ab: "dll_find keq (t_keys_list t) key = None"
      using ek pk by (simp add: dll_find_None_iff)
    have "after_set keq hf t key (snd nd) t1"
      using Some E inv s by (rule "5.IH"(2))
    then have t1: "table_inv keq hf t1" "t_keys_list t1 = t_keys_list t @ [(key, snd nd)]"
      "grown t t1"
      using ab p ap by (simp_all add: after_set_def all_proper_appended split: if_splits)
    have a1: "all_proper keq t1" using ap p by (simp add: all_proper_def t1(2))
    have d: "unique_keys keq (proper_keys keq ks)"
      and k': "\<forall>k \<in> set (proper_keys keq ks). \<not> keq key k"
      using dk pk by simp_all
    have e: "\<forall>k \<in> set (proper_keys keq ks). \<forall>nd \<in> set (t_keys_list t1). \<not> keq (fst nd) k"
      using ek k' pk by (simp add: t1(2))
    have a: "rehash_ready keq hf t1 ks" using t1(1) a1 d e by (simp add: rehash_ready_def)
    have "after_rehash keq hf t1 old_buckets ks t'"
      using Some s E a r by (rule "5.IH"(3))
    then show ?thesis using t1(2,3) Some by (simp add: after_rehash_def grown_def)
  qed
qed

lemma setitem_sound:
  assumes "key_contract keq hf" and "table_inv keq hf t"
    and "setitem keq hf n t key val = Some t'"
  shows "table_inv keq hf t'" and "grown t t'"
    and "t_keys_list t' = put keq (t_keys_list t) key val \<or>
         t_keys_list t' = proper_part keq (put keq (t_keys_list t) key val)"
  using setitem_sound_packed(1) [OF assms]
  by (simp_all add: after_set_def put_def split: if_splits)

lemma setitem_after:
  "key_contract keq hf \<Longrightarrow> table_inv keq hf t \<Longrightarrow> setitem keq hf n t key val = Some t' \<Longrightarrow>
   after_set keq hf t key val t'"
  by (rule setitem_sound_packed(1))

lemma length_put: "length (put keq kl key val) \<le> length kl + 1"
  by (simp add: put_def length_set_value)

lemma setitem_length:
  assumes "key_contract keq hf" and "table_inv keq hf t"
    and "setitem keq hf n t key val = Some t'"
  shows "length (t_keys_list t') \<le> length (t_keys_list t) + 1"
proof -
  have "length (proper_part keq (put keq (t_keys_list t) key val))
          \<le> length (put keq (t_keys_list t) key val)"
    by (rule length_proper_part)
  then show ?thesis
    using setitem_sound(3) [OF assms] length_put [of keq "t_keys_list t" key val]
    by auto
qed

subsection \<open>Termination of \<^verbatim>\<open>__setitem__\<close>\<close>

lemma setitem_fuel_mono:
  shows "setitem keq hf n t key val = Some t' \<Longrightarrow> setitem keq hf (n + d) t key val = Some t'"
    and "check_resize keq hf n t = Some t' \<Longrightarrow> check_resize keq hf (n + d) t = Some t'"
    and "resize keq hf n t new_capacity = Some t' \<Longrightarrow> resize keq hf (n + d) t new_capacity = Some t'"
    and "rehash keq hf n t ob ks = Some t' \<Longrightarrow> rehash keq hf (n + d) t ob ks = Some t'"
proof (induction keq hf n t key val and keq hf n t and keq hf n t new_capacity and keq hf n t ob ks
       arbitrary: t' and t' and t' and t'
       rule: setitem_check_resize_resize_rehash.induct)
  case (1 keq hf n t key val)
  let ?i = "hash_index hf t key"
  let ?b = "t_buckets t ! ?i"
  show ?case
  proof (cases "dll_find keq ?b key")
    case None
    let ?t1 = "t\<lparr>t_buckets := (t_buckets t)[?i := dll_append ?b key val],
                  t_keys_list := dll_append (t_keys_list t) key val,
                  t_size := t_size t + 1\<rparr>"
    have "check_resize keq hf n ?t1 = Some t'"
      using "1.prems" None by (simp add: setitem.simps Let_def)
    then have "check_resize keq hf (n + d) ?t1 = Some t'"
      using None by (intro "1.IH" [of ?i ?b]) simp_all
    then show ?thesis using None by (simp add: setitem.simps Let_def)
  next
    case (Some nd)
    then show ?thesis using "1.prems" by (simp add: setitem.simps Let_def)
  qed
next
  case (2 keq hf n t)
  show ?case
  proof (cases "load_exceeded t")
    case True
    then have "resize keq hf n t (t_capacity t * 2) = Some t'"
      using "2.prems" by (simp add: check_resize.simps)
    with True have "resize keq hf (n + d) t (t_capacity t * 2) = Some t'" by (rule "2.IH")
    then show ?thesis using True by (simp add: check_resize.simps)
  next
    case False
    then show ?thesis using "2.prems" by (simp add: check_resize.simps)
  qed
next
  case (3 keq hf n t new_capacity)
  show ?case
  proof (cases "load_exceeded t")
    case False
    then show ?thesis using "3.prems" by (simp add: resize_unfold)
  next
    case True
    then obtain m where n: "n = Suc m"
      using "3.prems" by (cases n) (simp_all add: resize_unfold)
    let ?t0 = "t\<lparr>t_capacity := new_capacity, t_buckets := replicate (nat new_capacity) [],
                  t_size := 0, t_keys_list := []\<rparr>"
    have r: "rehash keq hf m ?t0 (t_buckets t) (dll_iter (t_keys_list t)) = Some t'"
      using "3.prems" True n by (simp add: resize_unfold)
    have "rehash keq hf (m + d) ?t0 (t_buckets t) (dll_iter (t_keys_list t)) = Some t'"
      using True n r by (intro "3.IH" [of m]) (simp_all add: load_exceeded_def)
    then show ?thesis using True n by (simp add: resize_unfold)
  qed
next
  case (4 keq hf n t old_buckets)
  then show ?case by simp
next
  case (5 keq hf n t old_buckets key ks)
  show ?case
  proof (cases "find_in_buckets keq old_buckets key")
    case None
    have r: "rehash keq hf n t old_buckets ks = Some t'" using "5.prems" None by simp
    have "rehash keq hf (n + d) t old_buckets ks = Some t'" using None r by (rule "5.IH"(1))
    then show ?thesis using None by simp
  next
    case (Some nd)
    have "rehash keq hf n t old_buckets (key # ks)
            = (case setitem keq hf n t key (snd nd) of None \<Rightarrow> None
               | Some t1 \<Rightarrow> rehash keq hf n t1 old_buckets ks)"
      using Some by simp
    then obtain t1 where s: "setitem keq hf n t key (snd nd) = Some t1"
      and r: "rehash keq hf n t1 old_buckets ks = Some t'"
      using "5.prems" by (cases "setitem keq hf n t key (snd nd)") simp_all
    have s': "setitem keq hf (n + d) t key (snd nd) = Some t1" using Some s by (rule "5.IH"(2))
    have "rehash keq hf (n + d) t1 old_buckets ks = Some t'" using Some s r by (rule "5.IH"(3))
    then show ?thesis using Some s' by simp
  qed
qed

lemma setitem_fuel_le:
  "setitem keq hf n t key val = Some t' \<Longrightarrow> n \<le> m \<Longrightarrow> setitem keq hf m t key val = Some t'"
  using setitem_fuel_mono(1) [of keq hf n t key val t' "m - n"] by simp

lemma room_grown: "grown t t' \<Longrightarrow> 0 < t_load_factor t \<Longrightarrow> room t k d \<Longrightarrow> room t' k d"
proof -
  assume g: "grown t t'" and p: "0 < t_load_factor t" and r: "room t k d"
  have "t_load_factor t * real_of_int (t_capacity t) * 2 ^ d
          \<le> t_load_factor t * real_of_int (t_capacity t') * 2 ^ d"
    using g p by (simp add: grown_def)
  then show ?thesis using r g by (simp add: room_def grown_def)
qed

lemma room_le: "room t k d \<Longrightarrow> j \<le> k \<Longrightarrow> room t j d"
  by (simp add: room_def)

lemma room_exists:
  assumes "0 < t_load_factor t" and "0 < t_capacity t"
  shows "\<exists>d. room t k d"
proof -
  let ?x = "t_load_factor t * real_of_int (t_capacity t)"
  have x: "0 < ?x" using assms by simp
  then obtain n :: nat where n: "real (2 * k) < of_nat n * ?x"
    using ex_less_of_nat_mult by blast
  have "real n \<le> 2 ^ n" using less_exp [of n] by (metis less_imp_le of_nat_le_iff of_nat_numeral of_nat_power)
  then have "of_nat n * ?x \<le> 2 ^ n * ?x" using x by (simp add: mult_right_mono)
  then have "2 * real k \<le> ?x * 2 ^ n" using n by (simp add: mult.commute)
  then show ?thesis unfolding room_def by blast
qed

lemma not_exceeded_room0:
  "table_inv keq hf t \<Longrightarrow> room t (length (t_keys_list t)) 0 \<Longrightarrow> \<not> load_exceeded t"
proof -
  assume i: "table_inv keq hf t" and r: "room t (length (t_keys_list t)) 0"
  have c: "0 < t_capacity t" and s: "t_size t = int (length (t_keys_list t))"
    using i by (simp_all add: table_inv_def)
  have s0: "0 \<le> t_size t" using s by simp
  have "2 * (real_of_int (t_size t) / real_of_int (t_capacity t)) \<le> t_load_factor t"
    using r c s by (simp add: room_def pos_divide_le_eq)
  moreover have "py_truediv (t_size t) (t_capacity t)
                   \<le> 2 * (real_of_int (t_size t) / real_of_int (t_capacity t))"
    using s0 c by (rule py_truediv_le_twice)
  ultimately show ?thesis by (simp add: load_exceeded_def)
qed

lemma rehash_total_step:
  assumes E: "key_contract keq hf"
    and S: "\<And>(t :: ('k, 'v) table) key val.
     table_inv keq hf t \<Longrightarrow> room t (length (t_keys_list t) + 1) d
       \<Longrightarrow> \<exists>t'. setitem keq hf d t key val = Some t'"
  shows "table_inv keq hf (t :: ('k, 'v) table)
           \<Longrightarrow> room t (length (t_keys_list t) + length ks) d
           \<Longrightarrow> \<exists>t'. rehash keq hf d t ob ks = Some t'"
proof (induction ks arbitrary: t)
  case Nil
  show ?case by simp
next
  case (Cons key ks)
  show ?case
  proof (cases "find_in_buckets keq ob key")
    case None
    have "room t (length (t_keys_list t) + length ks) d"
      using Cons.prems(2) by (rule room_le) simp
    with Cons.prems(1) have "\<exists>t'. rehash keq hf d t ob ks = Some t'" by (rule Cons.IH)
    then show ?thesis using None by simp
  next
    case (Some nd)
    have "room t (length (t_keys_list t) + 1) d"
      using Cons.prems(2) by (rule room_le) simp
    with Cons.prems(1) have "\<exists>t'. setitem keq hf d t key (snd nd) = Some t'" by (rule S)
    then obtain t1 where s: "setitem keq hf d t key (snd nd) = Some t1" ..
    have t1: "table_inv keq hf t1" "grown t t1"
      using setitem_sound(1,2) [OF E Cons.prems(1) s] by simp_all
    have l: "length (t_keys_list t1) \<le> length (t_keys_list t) + 1"
      using E Cons.prems(1) s by (rule setitem_length)
    have p: "0 < t_load_factor t" using Cons.prems(1) by (simp add: table_inv_def)
    have "room t1 (length (t_keys_list t) + length (key # ks)) d"
      using t1(2) p Cons.prems(2) by (rule room_grown)
    moreover have "length (t_keys_list t1) + length ks \<le> length (t_keys_list t) + length (key # ks)"
      using l by simp
    ultimately have "room t1 (length (t_keys_list t1) + length ks) d"
      by (rule room_le)
    with t1(1) have "\<exists>t'. rehash keq hf d t1 ob ks = Some t'" by (rule Cons.IH)
    then show ?thesis using Some s by simp
  qed
qed

lemma setitem_total_fuel:
  assumes E: "key_contract keq hf"
  shows "table_inv keq hf t \<Longrightarrow> room t (length (t_keys_list t) + 1) d
     \<Longrightarrow> \<exists>t'. setitem keq hf d t key val = Some t'"
proof (induction d arbitrary: t key val)
  case 0
  show ?case
  proof (cases "dll_find keq (t_keys_list t) key")
    case (Some nd)
    then show ?thesis
      using inv_find [OF E "0.prems"(1), of key] by (simp add: setitem.simps Let_def)
  next
    case None
    let ?i = "hash_index hf t key"
    let ?t1 = "t\<lparr>t_buckets := (t_buckets t)[?i := dll_append (t_buckets t ! ?i) key val],
                  t_keys_list := dll_append (t_keys_list t) key val,
                  t_size := t_size t + 1\<rparr>"
    have i: "table_inv keq hf ?t1" using "0.prems"(1) None by (rule inv_append)
    have "room ?t1 (length (t_keys_list ?t1)) 0"
      using "0.prems"(2) by (simp add: room_def dll_append_def)
    with i have "\<not> load_exceeded ?t1" by (rule not_exceeded_room0)
    then have "check_resize keq hf 0 ?t1 = Some ?t1" by (simp add: check_resize.simps)
    then show ?thesis
      using None inv_find [OF E "0.prems"(1), of key] by (simp add: setitem.simps Let_def)
  qed
next
  case (Suc m)
  show ?case
  proof (cases "dll_find keq (t_keys_list t) key")
    case (Some nd)
    then show ?thesis
      using inv_find [OF E Suc.prems(1), of key] by (simp add: setitem.simps Let_def)
  next
    case None
    let ?i = "hash_index hf t key"
    let ?t1 = "t\<lparr>t_buckets := (t_buckets t)[?i := dll_append (t_buckets t ! ?i) key val],
                  t_keys_list := dll_append (t_keys_list t) key val,
                  t_size := t_size t + 1\<rparr>"
    let ?t0 = "?t1\<lparr>t_capacity := t_capacity ?t1 * 2,
                    t_buckets := replicate (nat (t_capacity ?t1 * 2)) [],
                    t_size := 0, t_keys_list := []\<rparr>"
    have i: "table_inv keq hf ?t1" using Suc.prems(1) None by (rule inv_append)
    have pos: "0 < t_capacity ?t1 * 2" "0 < t_load_factor ?t1"
      using i by (simp_all add: table_inv_def)
    have i0: "table_inv keq hf ?t0" using pos by (rule inv_reset)
    have "room ?t1 (length (t_keys_list ?t1)) (Suc m)"
      using Suc.prems(2) by (simp add: room_def dll_append_def)
    then have r0: "room ?t0 (length (t_keys_list ?t0) + length (dll_iter (t_keys_list ?t1))) m"
      by (simp add: room_def dll_iter_def mult.assoc)
    have S: "\<exists>t'. setitem keq hf m t key val = Some t'"
      if "table_inv keq hf t" "room t (length (t_keys_list t) + 1) m"
      for t :: "('a, 'b) table" and key val
      using that by (rule Suc.IH)
    have "\<exists>t'. rehash keq hf m ?t0 (t_buckets ?t1) (dll_iter (t_keys_list ?t1)) = Some t'"
      using E S i0 r0 by (rule rehash_total_step)
    then have "\<exists>t'. resize keq hf (Suc m) ?t1 (t_capacity ?t1 * 2) = Some t'"
      by (simp add: resize_unfold)
    then have "\<exists>t'. check_resize keq hf (Suc m) ?t1 = Some t'"
      by (simp add: check_resize.simps)
    then show ?thesis
      using None inv_find [OF E Suc.prems(1), of key] by (simp add: setitem.simps Let_def)
  qed
qed

lemma setitem_total:
  assumes "key_contract keq hf" and "table_inv keq hf t"
  shows "\<exists>n t'. setitem keq hf n t key val = Some t'"
proof -
  have "0 < t_load_factor t" "0 < t_capacity t" using assms(2) by (simp_all add: table_inv_def)
  then have "\<exists>d. room t (length (t_keys_list t) + 1) d" by (rule room_exists)
  then obtain d where "room t (length (t_keys_list t) + 1) d" ..
  with assms have "\<exists>t'. setitem keq hf d t key val = Some t'" by (rule setitem_total_fuel)
  then show ?thesis ..
qed

lemma inv_init: "init c lf = Inr t \<Longrightarrow> table_inv keq hf t"
  by (auto simp: init_def table_inv_def bucket_of_def split: if_splits intro!: nth_equalityI)

lemma inv_getitem:
  "key_contract keq hf \<Longrightarrow> table_inv keq hf t \<Longrightarrow>
     getitem keq hf t key = (case dll_find keq (t_keys_list t) key of
                           None \<Rightarrow> Inl KeyError | Some nd \<Rightarrow> Inr (snd nd))"
  by (simp add: getitem_def inv_find)

lemma inv_contains:
  "key_contract keq hf \<Longrightarrow> table_inv keq hf t \<Longrightarrow>
   contains keq hf t key \<longleftrightarrow> (\<exists>k \<in> set (keys t). keq k key)"
  by (simp add: contains_def inv_find dll_find_None_iff keys_def iter_def)

lemma inv_len: "table_inv keq hf t \<Longrightarrow> len t = int (length (keys t))"
  by (simp add: table_inv_def len_def keys_def iter_def)

subsection \<open>The capacity after an insert\<close>

lemma doublings_refl: "doublings lf c k c"
  unfolding doublings_def by (rule exI [of _ 0]) simp

lemma doublings_mono:
  assumes "doublings lf c k c'" and "0 \<le> k" and "k \<le> k'" and "0 < c"
  shows "doublings lf c k' c'"
proof -
  obtain d where d: "c' = c * 2 ^ d" "\<forall>j<d. lf < py_truediv k (c * 2 ^ j)"
    using assms(1) unfolding doublings_def by blast
  have "lf < py_truediv k' (c * 2 ^ j)" if "j < d" for j
  proof -
    have "0 < c * 2 ^ j" using assms(4) by simp
    with assms(2,3) have "py_truediv k (c * 2 ^ j) \<le> py_truediv k' (c * 2 ^ j)"
      by (rule py_truediv_mono)
    then show ?thesis using d(2) that by fastforce
  qed
  then show ?thesis using d(1) unfolding doublings_def by blast
qed

lemma doublings_trans:
  assumes "doublings lf c k c'" and "doublings lf c' k c''"
  shows "doublings lf c k c''"
proof -
  obtain d where d: "c' = c * 2 ^ d" "\<forall>j<d. lf < py_truediv k (c * 2 ^ j)"
    using assms(1) unfolding doublings_def by blast
  obtain e where e: "c'' = c' * 2 ^ e" "\<forall>j<e. lf < py_truediv k (c' * 2 ^ j)"
    using assms(2) unfolding doublings_def by blast
  have "c'' = c * 2 ^ (d + e)" using d(1) e(1) by (simp add: power_add)
  moreover have "lf < py_truediv k (c * 2 ^ j)" if "j < d + e" for j
  proof (cases "j < d")
    case True
    then show ?thesis using d(2) by simp
  next
    case False
    then have "j - d < e" and j: "j = d + (j - d)" using that by simp_all
    then have "lf < py_truediv k (c' * 2 ^ (j - d))" using e(2) by simp
    moreover have "c' * 2 ^ (j - d) = c * 2 ^ j"
      using d(1) j by (metis mult.assoc power_add)
    ultimately show ?thesis by simp
  qed
  ultimately show ?thesis unfolding doublings_def by blast
qed

lemma doublings_step: "lf < py_truediv k c \<Longrightarrow> doublings lf c k (c * 2)"
  unfolding doublings_def by (rule exI [of _ 1]) simp

lemma cap_after_doublings: "cap_after lf c k k c' \<Longrightarrow> doublings lf c k c'"
  unfolding cap_after_def using doublings_refl doublings_step doublings_trans by blast

lemma py_truediv_zero: "py_truediv 0 b = 0"
  by (simp add: py_truediv_def)

lemma setitem_capacity:
  shows "key_contract keq hf \<Longrightarrow> table_inv keq hf t \<Longrightarrow> setitem keq hf n t key val = Some t' \<Longrightarrow>
           set_settled keq t key t'"
    and "key_contract keq hf \<Longrightarrow> table_inv keq hf t \<Longrightarrow> check_resize keq hf n t = Some t' \<Longrightarrow>
           resettled t t'"
    and "key_contract keq hf \<Longrightarrow> table_inv keq hf t \<Longrightarrow> new_capacity = t_capacity t * 2 \<Longrightarrow>
         resize keq hf n t new_capacity = Some t' \<Longrightarrow> resettled t t'"
    and "key_contract keq hf \<Longrightarrow> rehash_ready keq hf t ks \<Longrightarrow> rehash keq hf n t ob ks = Some t' \<Longrightarrow>
           rehash_settled t t'"
proof (induction keq hf n t key val and keq hf n t and keq hf n t new_capacity and keq hf n t ob ks
       arbitrary: t' and t' and t' and t'
       rule: setitem_check_resize_resize_rehash.induct)
  case (1 keq hf n t key val)
  note E = "1.prems"(1)
  let ?i = "hash_index hf t key"
  let ?b = "t_buckets t ! ?i"
  have f: "dll_find keq ?b key = dll_find keq (t_keys_list t) key"
    using E "1.prems"(2) by (rule inv_find)
  show ?case
  proof (cases "dll_find keq (t_keys_list t) key")
    case None
    let ?t1 = "t\<lparr>t_buckets := (t_buckets t)[?i := dll_append ?b key val],
                  t_keys_list := dll_append (t_keys_list t) key val,
                  t_size := t_size t + 1\<rparr>"
    have c: "check_resize keq hf n ?t1 = Some t'"
      using "1.prems"(3) None f by (simp add: setitem.simps Let_def)
    have i: "table_inv keq hf ?t1" using "1.prems"(2) None by (rule inv_append)
    have "resettled ?t1 t'"
      using f None E i c by (intro "1.IH" [of ?i ?b]) simp_all
    then show ?thesis using None by (simp add: resettled_def set_settled_def)
  next
    case (Some nd)
    then have "t' = t\<lparr>t_buckets := (t_buckets t)[?i := set_value keq ?b key val],
                       t_keys_list := set_value keq (t_keys_list t) key val\<rparr>"
      using "1.prems"(3) f by (simp add: setitem.simps Let_def)
    then show ?thesis using Some by (simp add: set_settled_def)
  qed
next
  case (2 keq hf n t)
  show ?case
  proof (cases "load_exceeded t")
    case True
    then have "resize keq hf n t (t_capacity t * 2) = Some t'"
      using "2.prems"(3) by (simp add: check_resize.simps)
    with True "2.prems"(1,2) show ?thesis by (intro "2.IH") simp_all
  next
    case False
    then have "t' = t" using "2.prems"(3) by (simp add: check_resize.simps)
    then show ?thesis using False by (simp add: resettled_def cap_after_def load_exceeded_def)
  qed
next
  case (3 keq hf n t new_capacity)
  note E = "3.prems"(1)
  show ?case
  proof (cases "load_exceeded t")
    case False
    then have "t' = t" using "3.prems"(4) by (simp add: resize_unfold)
    then show ?thesis using False by (simp add: resettled_def cap_after_def load_exceeded_def)
  next
    case True
    then obtain m where n: "n = Suc m"
      using "3.prems"(4) by (cases n) (simp_all add: resize_unfold)
    let ?t0 = "t\<lparr>t_capacity := new_capacity, t_buckets := replicate (nat new_capacity) [],
                  t_size := 0, t_keys_list := []\<rparr>"
    have r: "rehash keq hf m ?t0 (t_buckets t) (dll_iter (t_keys_list t)) = Some t'"
      using "3.prems"(4) True n by (simp add: resize_unfold)
    have pos: "0 < new_capacity" "0 < t_load_factor t"
      using "3.prems"(2,3) by (simp_all add: table_inv_def)
    have i: "table_inv keq hf ?t0" using pos by (rule inv_reset)
    have d: "unique_keys keq (proper_keys keq (dll_iter (t_keys_list t)))"
      using "3.prems"(2) by (simp add: table_inv_def dll_iter_def proper_keys_def unique_keys_filter)
    have a: "rehash_ready keq hf ?t0 (dll_iter (t_keys_list t))"
      using i d by (simp add: rehash_ready_def all_proper_def)
    have ne0: "\<not> load_exceeded ?t0" using pos by (simp add: load_exceeded_def py_truediv_zero)
    have "rehash_settled ?t0 t'"
      using True n E a r by (intro "3.IH" [of m]) (simp_all add: load_exceeded_def)
    then show ?thesis
      using ne0 True "3.prems"(3)
      by (simp add: rehash_settled_def resettled_def cap_after_def load_exceeded_def)
  qed
next
  case (4 keq hf n t old_buckets)
  then show ?case by (simp add: rehash_settled_def doublings_refl)
next
  case (5 keq hf n t old_buckets key ks)
  note E = "5.prems"(1)
  have inv: "table_inv keq hf t" and ap: "all_proper keq t"
    and dk: "unique_keys keq (proper_keys keq (key # ks))"
    and ek: "\<forall>k \<in> set (proper_keys keq (key # ks)). \<forall>nd \<in> set (t_keys_list t). \<not> keq (fst nd) k"
    using "5.prems"(2) by (simp_all add: rehash_ready_def)
  show ?case
  proof (cases "find_in_buckets keq old_buckets key")
    case None
    have r: "rehash keq hf n t old_buckets ks = Some t'" using "5.prems"(3) None by simp
    have d: "unique_keys keq (proper_keys keq ks)"
      using dk by (simp add: proper_keys_def split: if_splits)
    have e: "\<forall>k \<in> set (proper_keys keq ks). \<forall>nd \<in> set (t_keys_list t). \<not> keq (fst nd) k"
      using ek by (simp add: proper_keys_def split: if_splits)
    have a: "rehash_ready keq hf t ks" using inv ap d e by (simp add: rehash_ready_def)
    show ?thesis using None E a r by (rule "5.IH"(1))
  next
    case (Some nd)
    have "rehash keq hf n t old_buckets (key # ks)
            = (case setitem keq hf n t key (snd nd) of None \<Rightarrow> None
               | Some t1 \<Rightarrow> rehash keq hf n t1 old_buckets ks)"
      using Some by simp
    then obtain t1 where s: "setitem keq hf n t key (snd nd) = Some t1"
      and r: "rehash keq hf n t1 old_buckets ks = Some t'"
      using "5.prems"(3) by (cases "setitem keq hf n t key (snd nd)") simp_all
    have "keq (fst nd) key" using Some by (rule find_in_buckets_Some)
    with E have p: "keq key key" by (rule contract_proper_right)
    then have pk: "proper_keys keq (key # ks) = key # proper_keys keq ks"
      by (simp add: proper_keys_def)
    have ab: "dll_find keq (t_keys_list t) key = None"
      using ek pk by (simp add: dll_find_None_iff)
    have "after_set keq hf t key (snd nd) t1" using E inv s by (rule setitem_after)
    then have t1: "table_inv keq hf t1" "t_keys_list t1 = t_keys_list t @ [(key, snd nd)]"
      "grown t t1"
      using ab p ap by (simp_all add: after_set_def all_proper_appended split: if_splits)
    have a1: "all_proper keq t1" using ap p by (simp add: all_proper_def t1(2))
    have d: "unique_keys keq (proper_keys keq ks)"
      and k': "\<forall>k \<in> set (proper_keys keq ks). \<not> keq key k"
      using dk pk by simp_all
    have e: "\<forall>k \<in> set (proper_keys keq ks). \<forall>nd \<in> set (t_keys_list t1). \<not> keq (fst nd) k"
      using ek k' pk by (simp add: t1(2))
    have a: "rehash_ready keq hf t1 ks" using t1(1) a1 d e by (simp add: rehash_ready_def)
    have "after_rehash keq hf t1 old_buckets ks t'"
      using E a r by (rule setitem_sound_packed(4))
    then have t': "table_inv keq hf t'" and le: "length (t_keys_list t1) \<le> length (t_keys_list t')"
      by (simp_all add: after_rehash_def)
    have sz: "t_size t1 = t_size t + 1" "0 \<le> t_size t1" "t_size t1 \<le> t_size t'"
      using inv t1(1) t' le by (simp_all add: table_inv_def t1(2))
    have "set_settled keq t key t1" using Some E inv s by (rule "5.IH"(2))
    then have c1: "cap_after (t_load_factor t) (t_capacity t) (t_size t1) (t_size t1) (t_capacity t1)"
      and n1: "\<not> load_exceeded t1"
      using ab sz(1) by (simp_all add: set_settled_def)
    have "rehash_settled t1 t'" using Some s E a r by (rule "5.IH"(3))
    then have b: "doublings (t_load_factor t) (t_capacity t1) (t_size t') (t_capacity t')"
      and n': "\<not> load_exceeded t'"
      using n1 t1(3) by (simp_all add: rehash_settled_def grown_def)
    have c: "0 < t_capacity t" using inv by (simp add: table_inv_def)
    have "doublings (t_load_factor t) (t_capacity t) (t_size t1) (t_capacity t1)"
      using c1 by (rule cap_after_doublings)
    then have "doublings (t_load_factor t) (t_capacity t) (t_size t') (t_capacity t1)"
      using sz(2,3) c by (rule doublings_mono)
    then have "doublings (t_load_factor t) (t_capacity t) (t_size t') (t_capacity t')"
      using b by (rule doublings_trans)
    then show ?thesis using n' by (simp add: rehash_settled_def)
  qed
qed

subsection \<open>The two classes, deletion and runs of operations\<close>

lemma nts_setitem_eq:
  shows "nts_setitem keq hf n t key val = setitem keq hf n t key val"
    and "nts_check_resize keq hf n t = check_resize keq hf n t"
    and "load_exceeded t \<Longrightarrow> nts_resize keq hf n t new_capacity = resize keq hf n t new_capacity"
    and "nts_rehash keq hf n t ob ks = rehash keq hf n t ob ks"
proof (induction keq hf n t key val and keq hf n t and keq hf n t new_capacity and keq hf n t ob ks
       rule: setitem_check_resize_resize_rehash.induct)
  case (1 keq hf n t key val)
  let ?i = "hash_index hf t key"
  let ?b = "t_buckets t ! ?i"
  show ?case
  proof (cases "dll_find keq ?b key")
    case None
    let ?t1 = "t\<lparr>t_buckets := (t_buckets t)[?i := dll_append ?b key val],
                  t_keys_list := dll_append (t_keys_list t) key val,
                  t_size := t_size t + 1\<rparr>"
    have "nts_check_resize keq hf n ?t1 = check_resize keq hf n ?t1"
      using None by (intro "1.IH" [of ?i ?b]) simp_all
    then show ?thesis using None by (simp add: setitem.simps nts_setitem.simps Let_def)
  next
    case (Some nd)
    then show ?thesis by (simp add: setitem.simps nts_setitem.simps Let_def)
  qed
next
  case (2 keq hf n t)
  show ?case
  proof (cases "load_exceeded t")
    case True
    then have "nts_resize keq hf n t (t_capacity t * 2) = resize keq hf n t (t_capacity t * 2)"
      using True by (rule "2.IH")
    then show ?thesis using True by (simp add: check_resize.simps nts_check_resize.simps)
  next
    case False
    then show ?thesis by (simp add: check_resize.simps nts_check_resize.simps)
  qed
next
  case (3 keq hf n t new_capacity)
  show ?case
  proof (cases n)
    case 0
    then show ?thesis using "3.prems" by (simp add: resize_unfold nts_resize.simps)
  next
    case (Suc m)
    let ?t0 = "t\<lparr>t_capacity := new_capacity, t_buckets := replicate (nat new_capacity) [],
                  t_size := 0, t_keys_list := []\<rparr>"
    have "nts_rehash keq hf m ?t0 (t_buckets t) (dll_iter (t_keys_list t))
            = rehash keq hf m ?t0 (t_buckets t) (dll_iter (t_keys_list t))"
      using "3.prems" Suc by (intro "3.IH" [of m]) (simp_all add: load_exceeded_def)
    then show ?thesis using "3.prems" Suc by (simp add: resize_unfold nts_resize.simps)
  qed
next
  case (4 keq hf n t old_buckets)
  show ?case by simp
next
  case (5 keq hf n t old_buckets key ks)
  show ?case
  proof (cases "find_in_buckets keq old_buckets key")
    case None
    have "nts_rehash keq hf n t old_buckets ks = rehash keq hf n t old_buckets ks"
      using None by (rule "5.IH"(1))
    then show ?thesis using None by simp
  next
    case (Some nd)
    have s: "nts_setitem keq hf n t key (snd nd) = setitem keq hf n t key (snd nd)"
      using Some by (rule "5.IH"(2))
    show ?thesis
    proof (cases "setitem keq hf n t key (snd nd)")
      case None
      then show ?thesis using Some s by simp
    next
      case (Some t1)
      have "nts_rehash keq hf n t1 old_buckets ks = rehash keq hf n t1 old_buckets ks"
        using \<open>find_in_buckets keq old_buckets key = Some nd\<close> Some by (rule "5.IH"(3))
      then show ?thesis using \<open>find_in_buckets keq old_buckets key = Some nd\<close> Some s by simp
    qed
  qed
qed

lemma nts_apply_op_eq: "nts_apply_op keq hf n t op = apply_op keq hf n t op"
  by (cases op)
    (simp_all add: nts_setitem_eq(1) nts_getitem_def getitem_def nts_get_def get_def
      nts_delitem_def delitem_def nts_contains_def contains_def nts_len_def len_def
      nts_iter_def keys_def iter_def)

lemma nts_run_eq: "nts_run keq hf n t ops = run keq hf n t ops"
  by (induction ops arbitrary: t) (simp_all add: nts_apply_op_eq split: option.splits prod.splits)

lemma map_fst_put:
  "map fst (put keq kl key val)
     = (if \<exists>k \<in> set (map fst kl). keq k key then map fst kl else map fst kl @ [key])"
  by (auto simp: put_def dll_find_None_iff map_fst_set_value)

lemma remove_no_match:
  assumes "key_contract keq hf"
  shows "unique_keys keq (map fst xs) \<Longrightarrow> \<forall>nd \<in> set (dll_remove keq xs key). \<not> keq (fst nd) key"
proof (induction xs)
  case Nil
  show ?case by simp
next
  case (Cons x xs)
  show ?case
  proof (cases "keq (fst x) key")
    case True
    have "\<not> keq (fst y) key" if "y \<in> set xs" for y
    proof
      assume "keq (fst y) key"
      with assms have "keq key (fst y)" by (rule contract_sym)
      with assms True have "keq (fst x) (fst y)" by (rule contract_trans)
      then show False using Cons.prems that by auto
    qed
    then show ?thesis using True by simp
  next
    case False
    then show ?thesis using Cons by simp
  qed
qed

lemma map_fst_remove:
  assumes "key_contract keq hf"
  shows "unique_keys keq (map fst kl) \<Longrightarrow>
         map fst (dll_remove keq kl key) = filter (\<lambda>k. \<not> keq k key) (map fst kl)"
proof (induction kl)
  case Nil
  show ?case by simp
next
  case (Cons nd kl)
  show ?case
  proof (cases "keq (fst nd) key")
    case True
    have "\<forall>y \<in> set (dll_remove keq (nd # kl) key). \<not> keq (fst y) key"
      using assms Cons.prems by (rule remove_no_match)
    then have "\<forall>k \<in> set (map fst kl). \<not> keq k key" using True by simp
    then have "filter (\<lambda>k. \<not> keq k key) (map fst kl) = map fst kl"
      by (intro filter_True) auto
    then show ?thesis using True by simp
  next
    case False
    then show ?thesis using Cons by simp
  qed
qed

lemma delitem_sound:
  assumes "key_contract keq hf" and "table_inv keq hf t"
  shows "delitem keq hf t key =
           (if contains keq hf t key
            then Inr (t\<lparr>t_buckets := (t_buckets t)[hash_index hf t key :=
                                       dll_remove keq (t_buckets t ! hash_index hf t key) key],
                        t_keys_list := dll_remove keq (t_keys_list t) key,
                        t_size := t_size t - 1\<rparr>)
            else Inl KeyError)"
  by (cases "dll_find keq (t_buckets t ! hash_index hf t key) key")
    (simp_all add: delitem_def contains_def Let_def)

lemma delitem_inv:
  assumes "key_contract keq hf" and "table_inv keq hf t" and "delitem keq hf t key = Inr t'"
  shows "table_inv keq hf t'" and "t_keys_list t' = dll_remove keq (t_keys_list t) key"
    and "keys t' = filter (\<lambda>k. \<not> keq k key) (keys t)"
    and "t_capacity t' = t_capacity t" and "t_load_factor t' = t_load_factor t"
    and "len t' = len t - 1"
proof -
  have k: "contains keq hf t key" and
    t': "t' = t\<lparr>t_buckets := (t_buckets t)[hash_index hf t key :=
                                       dll_remove keq (t_buckets t ! hash_index hf t key) key],
                        t_keys_list := dll_remove keq (t_keys_list t) key,
                        t_size := t_size t - 1\<rparr>"
    using assms(3) delitem_sound [OF assms(1,2), of key] by (simp_all split: if_splits)
  have "dll_find keq (t_keys_list t) key \<noteq> None"
    using k inv_find [OF assms(1,2), of key] by (simp add: contains_def)
  with assms(1,2) show "table_inv keq hf t'" unfolding t' by (rule inv_remove)
  have "unique_keys keq (map fst (t_keys_list t))" using assms(2) by (simp add: table_inv_def)
  then show "keys t' = filter (\<lambda>k. \<not> keq k key) (keys t)"
    using assms(1) by (simp add: t' keys_def iter_def map_fst_remove)
  show "t_keys_list t' = dll_remove keq (t_keys_list t) key" by (simp add: t')
  show "t_capacity t' = t_capacity t" "t_load_factor t' = t_load_factor t" "len t' = len t - 1"
    by (simp_all add: t' len_def)
qed

lemma set_proper_part: "set (proper_part keq kl) \<subseteq> set kl"
  by (auto simp: proper_part_def)

lemma set_keys_put: "fst ` set (put keq kl key val) \<subseteq> insert key (fst ` set kl)"
proof -
  have "set (map fst (put keq kl key val)) \<subseteq> insert key (set (map fst kl))"
    unfolding map_fst_put by auto
  then show ?thesis by simp
qed

lemma setitem_keys_subset:
  assumes "key_contract keq hf" and "table_inv keq hf t"
    and "setitem keq hf n t key val = Some t'"
  shows "set (keys t') \<subseteq> insert key (set (keys t))"
proof -
  have "fst ` set (t_keys_list t') \<subseteq> fst ` set (put keq (t_keys_list t) key val)"
    using setitem_sound(3) [OF assms] set_proper_part [of keq "put keq (t_keys_list t) key val"]
    by auto
  then show ?thesis
    using set_keys_put [of keq "t_keys_list t" key val] by (auto simp: keys_def iter_def)
qed

lemma apply_op_inv:
  assumes "key_contract keq hf" and "table_inv keq hf t"
    and "apply_op keq hf n t op = Some (out, t')"
  shows "table_inv keq hf t'" and "grown t t'"
    and "set (keys t') \<subseteq> set (keys t) \<union> (case op of Set k v \<Rightarrow> {k} | _ \<Rightarrow> {})"
proof -
  have "table_inv keq hf t' \<and> grown t t' \<and>
        set (keys t') \<subseteq> set (keys t) \<union> (case op of Set k v \<Rightarrow> {k} | _ \<Rightarrow> {})"
  proof (cases op)
    case (Set key val)
    then have s: "setitem keq hf n t key val = Some t'"
      using assms(3) by (simp split: option.splits)
    show ?thesis
      using setitem_sound(1,2) [OF assms(1,2) s] setitem_keys_subset [OF assms(1,2) s] Set
      by auto
  next
    case (Delete key)
    show ?thesis
    proof (cases "delitem keq hf t key")
      case (Inl e)
      then have "t' = t" using assms(3) Delete by simp
      then show ?thesis using assms(2) by (simp add: grown_def)
    next
      case (Inr t1)
      then have "t' = t1" using assms(3) Delete by simp
      then show ?thesis
        using delitem_inv [OF assms(1,2), of key t1] Inr by (auto simp: grown_def)
    qed
  qed (use assms in \<open>simp_all add: grown_def\<close>)
  then show "table_inv keq hf t'" and "grown t t'"
    and "set (keys t') \<subseteq> set (keys t) \<union> (case op of Set k v \<Rightarrow> {k} | _ \<Rightarrow> {})"
    by simp_all
qed

lemma run_inv:
  assumes "key_contract keq hf"
  shows "table_inv keq hf t \<Longrightarrow> run keq hf n t ops = Some (outs, t')
     \<Longrightarrow> table_inv keq hf t' \<and> grown t t'"
proof (induction ops arbitrary: t outs)
  case Nil
  then show ?case by (simp add: grown_def)
next
  case (Cons op ops)
  obtain out t1 where a: "apply_op keq hf n t op = Some (out, t1)"
    using Cons.prems(2) by (cases "apply_op keq hf n t op") auto
  then obtain outs1 where r: "run keq hf n t1 ops = Some (outs1, t')"
    using Cons.prems(2) by (cases "run keq hf n t1 ops") auto
  have 1: "table_inv keq hf t1" "grown t t1"
    using apply_op_inv(1,2) [OF assms Cons.prems(1) a] by simp_all
  have 2: "table_inv keq hf t' \<and> grown t1 t'"
    using 1(1) r by (rule Cons.IH)
  show ?case using 1 2 by (simp add: grown_def)
qed

lemma run_absent:
  assumes "key_contract keq hf"
  shows "table_inv keq hf t \<Longrightarrow> run keq hf n t ops = Some (outs, t') \<Longrightarrow>
         \<forall>k \<in> set (keys t). \<not> keq k key \<Longrightarrow>
         \<forall>k v. Set k v \<in> set ops \<longrightarrow> \<not> keq k key \<Longrightarrow>
         \<forall>k \<in> set (keys t'). \<not> keq k key"
proof (induction ops arbitrary: t outs)
  case Nil
  then show ?case by simp
next
  case (Cons op ops)
  obtain out t1 where a: "apply_op keq hf n t op = Some (out, t1)"
    using Cons.prems(2) by (cases "apply_op keq hf n t op") auto
  then obtain outs1 where r: "run keq hf n t1 ops = Some (outs1, t')"
    using Cons.prems(2) by (cases "run keq hf n t1 ops") auto
  have 1: "table_inv keq hf t1"
    and s: "set (keys t1) \<subseteq> set (keys t) \<union> (case op of Set k v \<Rightarrow> {k} | _ \<Rightarrow> {})"
    using apply_op_inv(1,3) [OF assms Cons.prems(1) a] by simp_all
  have "\<not> keq k key" if "k \<in> (case op of Set k v \<Rightarrow> {k} | _ \<Rightarrow> {})" for k
    using that Cons.prems(4) by (cases op) auto
  then have 2: "\<forall>k \<in> set (keys t1). \<not> keq k key" using s Cons.prems(3) by blast
  have 3: "\<forall>k v. Set k v \<in> set ops \<longrightarrow> \<not> keq k key" using Cons.prems(4) by simp
  show ?case using 1 r 2 3 by (rule Cons.IH)
qed

lemma apply_op_exact:
  assumes "key_contract keq hf" and "table_inv keq hf t" and "all_proper keq t"
    and "case op of Set k v \<Rightarrow> keq k k | _ \<Rightarrow> True"
    and "apply_op keq hf n t op = Some (out, t')"
  shows "all_proper keq t' \<and> keys t' = track keq (keys t) [op]"
proof (cases op)
  case (Set key val)
  then have s: "setitem keq hf n t key val = Some t'"
    using assms(5) by (simp split: option.splits)
  have p: "keq key key" using assms(4) Set by simp
  have a: "proper_part keq (t_keys_list t @ [(key, val)]) = t_keys_list t @ [(key, val)]"
    using assms(3) p by (rule all_proper_appended)
  have "after_set keq hf t key val t'" using assms(1,2) s by (rule setitem_after)
  then have kl: "t_keys_list t' = put keq (t_keys_list t) key val"
    using a by (simp add: after_set_def put_def split: if_splits)
  have sub: "fst ` set (put keq (t_keys_list t) key val) \<subseteq> insert key (fst ` set (t_keys_list t))"
    by (rule set_keys_put)
  have "all_proper keq t'"
    unfolding all_proper_def
  proof
    fix nd
    assume "nd \<in> set (t_keys_list t')"
    then have "fst nd \<in> fst ` set (put keq (t_keys_list t) key val)" using kl by simp
    then have "fst nd = key \<or> fst nd \<in> fst ` set (t_keys_list t)" using sub by blast
    then show "keq (fst nd) (fst nd)" using assms(3) p by (auto simp: all_proper_def)
  qed
  moreover have "keys t' = track keq (keys t) [op]"
    using Set kl map_fst_put [of keq "t_keys_list t" key val] by (simp add: keys_def iter_def)
  ultimately show ?thesis by simp
next
  case (Delete key)
  show ?thesis
  proof (cases "delitem keq hf t key")
    case (Inl e)
    then have t': "t' = t" using assms(5) Delete by simp
    have "\<not> contains keq hf t key"
      using Inl delitem_sound [OF assms(1,2), of key] by (simp split: if_splits)
    then have "\<forall>k \<in> set (keys t). \<not> keq k key"
      using inv_contains [OF assms(1,2), of key] by simp
    then have "filter (\<lambda>k. \<not> keq k key) (keys t) = keys t" by (intro filter_True) auto
    then show ?thesis using assms(3) Delete t' by simp
  next
    case (Inr t1)
    then have t': "t' = t1" using assms(5) Delete by simp
    have "set (t_keys_list t1) \<subseteq> set (t_keys_list t)"
      using delitem_inv(2) [OF assms(1,2) Inr] set_dll_remove [of keq "t_keys_list t" key]
      by simp
    then have "all_proper keq t1" using assms(3) by (auto simp: all_proper_def)
    then show ?thesis using delitem_inv(3) [OF assms(1,2) Inr] Delete t' by simp
  qed
qed (use assms in \<open>simp_all\<close>)

lemma track_append: "track keq live (ops @ ops') = track keq (track keq live ops) ops'"
  by (induction keq live ops rule: track.induct) simp_all

lemma run_exact:
  assumes "key_contract keq hf"
  shows "table_inv keq hf t \<Longrightarrow> all_proper keq t \<Longrightarrow> proper_history keq ops \<Longrightarrow>
         run keq hf n t ops = Some (outs, t') \<Longrightarrow>
         all_proper keq t' \<and> keys t' = track keq (keys t) ops"
proof (induction ops arbitrary: t outs)
  case Nil
  then show ?case by simp
next
  case (Cons op ops)
  obtain out t1 where a: "apply_op keq hf n t op = Some (out, t1)"
    using Cons.prems(4) by (cases "apply_op keq hf n t op") auto
  then obtain outs1 where r: "run keq hf n t1 ops = Some (outs1, t')"
    using Cons.prems(4) by (cases "run keq hf n t1 ops") auto
  have po: "case op of Set k v \<Rightarrow> keq k k | _ \<Rightarrow> True" and ph: "proper_history keq ops"
    using Cons.prems(3) by (simp_all add: proper_history_def)
  have i1: "table_inv keq hf t1" using apply_op_inv(1) [OF assms Cons.prems(1) a] .
  have 1: "all_proper keq t1 \<and> keys t1 = track keq (keys t) [op]"
    using assms Cons.prems(1,2) po a by (rule apply_op_exact)
  then have 2: "all_proper keq t' \<and> keys t' = track keq (keys t1) ops"
    using i1 ph r Cons.IH by blast
  have "track keq (keys t) (op # ops) = track keq (track keq (keys t) [op]) ops"
    using track_append [of keq "keys t" "[op]" ops] by simp
  then show ?case using 1 2 by simp
qed

lemma apply_op_fuel_le:
  "apply_op keq hf n t op = Some r \<Longrightarrow> n \<le> m \<Longrightarrow> apply_op keq hf m t op = Some r"
proof (cases op)
  case (Set key val)
  assume a: "apply_op keq hf n t op = Some r" and le: "n \<le> m"
  then obtain t' where s: "setitem keq hf n t key val = Some t'" and r: "r = (Done, t')"
    using Set by (auto split: option.splits)
  have "setitem keq hf m t key val = Some t'" using s le by (rule setitem_fuel_le)
  then show ?thesis using Set r by simp
qed simp_all

lemma run_fuel_le:
  "run keq hf n t ops = Some r \<Longrightarrow> n \<le> m \<Longrightarrow> run keq hf m t ops = Some r"
proof (induction ops arbitrary: t r)
  case Nil
  then show ?case by simp
next
  case (Cons op ops)
  obtain out t1 where a: "apply_op keq hf n t op = Some (out, t1)"
    using Cons.prems(1) by (cases "apply_op keq hf n t op") auto
  then obtain outs1 t2 where r: "run keq hf n t1 ops = Some (outs1, t2)"
    using Cons.prems(1) by (cases "run keq hf n t1 ops") auto
  have a': "apply_op keq hf m t op = Some (out, t1)"
    using a Cons.prems(2) by (rule apply_op_fuel_le)
  have "run keq hf m t1 ops = Some (outs1, t2)" using r Cons.prems(2) by (rule Cons.IH)
  then show ?case using a a' r Cons.prems(1) by simp
qed

lemma apply_op_total:
  assumes "key_contract keq hf" and "table_inv keq hf t"
  shows "\<exists>n r. apply_op keq hf n t op = Some r"
proof (cases op)
  case (Set key val)
  obtain n t' where "setitem keq hf n t key val = Some t'"
    using setitem_total [OF assms] by blast
  then have "apply_op keq hf n t op = Some (Done, t')" using Set by simp
  then show ?thesis by blast
qed simp_all

lemma run_total:
  assumes "key_contract keq hf"
  shows "table_inv keq hf t \<Longrightarrow> \<exists>n r. run keq hf n t ops = Some r"
proof (induction ops arbitrary: t)
  case Nil
  show ?case by simp
next
  case (Cons op ops)
  obtain n1 out t1 where a: "apply_op keq hf n1 t op = Some (out, t1)"
    using apply_op_total [OF assms Cons.prems, of op] by auto
  have "table_inv keq hf t1" using apply_op_inv(1) [OF assms Cons.prems a] .
  then obtain n2 outs t2 where r: "run keq hf n2 t1 ops = Some (outs, t2)"
    using Cons.IH by fastforce
  have "apply_op keq hf (max n1 n2) t op = Some (out, t1)"
    using a by (rule apply_op_fuel_le) simp
  moreover have "run keq hf (max n1 n2) t1 ops = Some (outs, t2)"
    using r by (rule run_fuel_le) simp
  ultimately have "run keq hf (max n1 n2) t (op # ops) = Some (out # outs, t2)" by simp
  then show ?case by blast
qed

lemma run_append:
  "run keq hf n t (ops1 @ ops2) = Some (outs, t') \<Longrightarrow>
   \<exists>o1 t1 o2. run keq hf n t ops1 = Some (o1, t1) \<and> run keq hf n t1 ops2 = Some (o2, t')"
proof (induction ops1 arbitrary: t outs)
  case Nil
  then show ?case by simp
next
  case (Cons op ops1)
  obtain out t0 where a: "apply_op keq hf n t op = Some (out, t0)"
    using Cons.prems by (cases "apply_op keq hf n t op") auto
  then obtain outs0 where r: "run keq hf n t0 (ops1 @ ops2) = Some (outs0, t')"
    using Cons.prems by (cases "run keq hf n t0 (ops1 @ ops2)") auto
  obtain o1 t1 o2 where 1: "run keq hf n t0 ops1 = Some (o1, t1)"
    and 2: "run keq hf n t1 ops2 = Some (o2, t')"
    using Cons.IH [OF r] by blast
  have "run keq hf n t (op # ops1) = Some (out # o1, t1)" using a 1 by simp
  then show ?case using 2 by blast
qed

lemma reach_inv:
  assumes "key_contract keq hf" and "init c lf = Inr t0"
    and "run keq hf n t0 ops = Some (outs, t)"
  shows "table_inv keq hf t"
proof -
  have "table_inv keq hf t0" using assms(2) by (rule inv_init)
  then show ?thesis using run_inv [OF assms(1) _ assms(3)] by simp
qed

lemma init_empty: "init c lf = Inr t0 \<Longrightarrow> t_keys_list t0 = []"
  by (auto simp: init_def split: if_splits)

lemma reach_exact:
  assumes "key_contract keq hf" and "init c lf = Inr t0"
    and "run keq hf n t0 ops = Some (outs, t)" and "proper_history keq ops"
  shows "all_proper keq t" and "keys t = insertion_order keq ops"
proof -
  have i: "table_inv keq hf t0" using assms(2) by (rule inv_init)
  have e: "t_keys_list t0 = []" using assms(2) by (rule init_empty)
  then have a: "all_proper keq t0" by (simp add: all_proper_def)
  have "all_proper keq t \<and> keys t = track keq (keys t0) ops"
    using assms(1) i a assms(4,3) by (rule run_exact)
  then show "all_proper keq t" and "keys t = insertion_order keq ops"
    using e by (simp_all add: insertion_order_def keys_def iter_def)
qed

lemma track_never_set:
  "\<forall>k \<in> set live. \<not> keq k key \<Longrightarrow> \<forall>k v. Set k v \<in> set ops \<longrightarrow> \<not> keq k key \<Longrightarrow>
   \<forall>k \<in> set (track keq live ops). \<not> keq k key"
proof (induction ops arbitrary: live)
  case Nil
  then show ?case by simp
next
  case (Cons op ops)
  have r: "\<forall>k v. Set k v \<in> set ops \<longrightarrow> \<not> keq k key" using Cons.prems(2) by simp
  show ?case
  proof (cases op)
    case (Set k val)
    then have "\<not> keq k key" using Cons.prems(2) by simp
    then have "\<forall>x \<in> set (if \<exists>k'\<in>set live. keq k' k then live else live @ [k]). \<not> keq x key"
      using Cons.prems(1) by simp
    then have "\<forall>x \<in> set (track keq (if \<exists>k'\<in>set live. keq k' k then live else live @ [k]) ops).
                \<not> keq x key"
      using r by (rule Cons.IH)
    then show ?thesis using Set by simp
  next
    case (Delete k)
    have "\<forall>x \<in> set (filter (\<lambda>x. \<not> keq x k) live). \<not> keq x key"
      using Cons.prems(1) by simp
    then have "\<forall>x \<in> set (track keq (filter (\<lambda>x. \<not> keq x k) live) ops). \<not> keq x key"
      using r by (rule Cons.IH)
    then show ?thesis using Delete by simp
  next
    case (Get k)
    then show ?thesis using Cons.IH [OF Cons.prems(1) r] by simp
  next
    case (GetDefault k d)
    then show ?thesis using Cons.IH [OF Cons.prems(1) r] by simp
  next
    case (Contains k)
    then show ?thesis using Cons.IH [OF Cons.prems(1) r] by simp
  next
    case Length
    then show ?thesis using Cons.IH [OF Cons.prems(1) r] by simp
  next
    case Keys
    then show ?thesis using Cons.IH [OF Cons.prems(1) r] by simp
  qed
qed

lemma filter_no_match:
  assumes "key_contract keq hf" and "keq k' key"
  shows "\<forall>k \<in> set (filter (\<lambda>k. \<not> keq k k') live). \<not> keq k key"
proof
  fix k
  assume k: "k \<in> set (filter (\<lambda>k. \<not> keq k k') live)"
  show "\<not> keq k key"
  proof
    assume a: "keq k key"
    have b: "keq key k'" using assms by (rule contract_sym)
    have "keq k k'" using assms(1) a b by (rule contract_trans)
    then show False using k by simp
  qed
qed

lemma insertion_order_never_set:
  "\<forall>k v. Set k v \<in> set ops \<longrightarrow> \<not> keq k key \<Longrightarrow> \<forall>k \<in> set (insertion_order keq ops). \<not> keq k key"
  unfolding insertion_order_def by (rule track_never_set) simp_all

lemma insertion_order_since_deleted:
  assumes "key_contract keq hf" and "keq k' key"
    and "\<forall>k v. Set k v \<in> set ops2 \<longrightarrow> \<not> keq k key"
  shows "\<forall>k \<in> set (insertion_order keq (ops1 @ Delete k' # ops2)). \<not> keq k key"
proof -
  have "\<forall>k \<in> set (filter (\<lambda>k. \<not> keq k k') (track keq [] ops1)). \<not> keq k key"
    using assms(1,2) by (rule filter_no_match)
  then have "\<forall>k \<in> set (track keq (filter (\<lambda>k. \<not> keq k k') (track keq [] ops1)) ops2). \<not> keq k key"
    using assms(3) by (rule track_never_set)
  then show ?thesis by (simp add: insertion_order_def track_append)
qed

subsection \<open>Repeated assignment and the examples\<close>

lemma dll_find_append:
  "dll_find keq (xs @ ys) key
     = (case dll_find keq xs key of None \<Rightarrow> dll_find keq ys key | Some nd \<Rightarrow> Some nd)"
  by (induction xs) auto

lemma dll_find_set_value_same:
  "dll_find keq xs key = Some nd \<Longrightarrow>
   dll_find keq (set_value keq xs key val) key = Some (fst nd, val)"
  by (induction xs) (auto split: if_splits)




text \<open>The key list that \<^verbatim>\<open>__setitem__\<close> leaves, as a function of the value.\<close>

lemma after_set_keys_list:
  assumes "after_set keq hf t key val t'" and "keq key key"
  shows "t_keys_list t' =
           (if dll_find keq (t_keys_list t) key \<noteq> None then set_value keq (t_keys_list t) key val
            else (if overfull t then proper_part keq (t_keys_list t) else t_keys_list t)
                   @ [(key, val)])"
  using assms by (simp add: after_set_def proper_part_def split: if_splits)

lemma after_set_find:
  assumes "key_contract keq hf" and "keq key key" and "after_set keq hf t key val t'"
  shows "\<exists>k0. dll_find keq (t_keys_list t') key = Some (k0, val)"
proof (cases "dll_find keq (t_keys_list t) key")
  case (Some nd)
  then have "t_keys_list t' = set_value keq (t_keys_list t) key val"
    using after_set_keys_list [OF assms(3,2)] by simp
  then show ?thesis using dll_find_set_value_same [OF Some, of val] by simp
next
  case None
  let ?base = "if overfull t then proper_part keq (t_keys_list t) else t_keys_list t"
  have kl: "t_keys_list t' = ?base @ [(key, val)]"
    using None after_set_keys_list [OF assms(3,2)] by simp
  have "dll_find keq ?base key = None"
    using None dll_find_proper_part [OF assms(1), of "t_keys_list t" key] by simp
  then have "dll_find keq (?base @ [(key, val)]) key = Some (key, val)"
    using assms(2) by (simp add: dll_find_append)
  then show ?thesis using kl by simp
qed



lemma inv_getitem_entry:
  assumes "key_contract keq hf" and "table_inv keq hf t" and "kv \<in> set (items t)"
    and "keq (fst kv) (fst kv)"
  shows "getitem keq hf t (fst kv) = Inr (snd kv)"
proof -
  have "unique_keys keq (map fst (t_keys_list t))" using assms(2) by (simp add: table_inv_def)
  moreover have "kv \<in> set (t_keys_list t)" using assms(3) by (simp add: items_def)
  ultimately have "dll_find keq (t_keys_list t) (fst kv) = Some kv"
    using assms(4) by (rule dll_find_distinct)
  then show ?thesis using assms(1,2) by (simp add: inv_getitem)
qed

lemma set_all_sound:
  assumes E: "key_contract keq hf"
  shows "run keq hf m t (set_all kvs) = Some (outs, t') \<Longrightarrow> table_inv keq hf t \<Longrightarrow>
   all_proper keq t \<Longrightarrow> unique_keys keq (map fst kvs) \<Longrightarrow>
   \<forall>k \<in> set (map fst kvs). keq k k \<and> (\<forall>k' \<in> set (keys t). \<not> keq k' k) \<Longrightarrow>
     table_inv keq hf t' \<and> all_proper keq t' \<and> t_keys_list t' = t_keys_list t @ kvs \<and> grown t t'"
proof (induction kvs arbitrary: t outs)
  case Nil
  then show ?case by (simp add: set_all_def grown_def)
next
  case (Cons kv kvs)
  have r: "run keq hf m t (Set (fst kv) (snd kv) # set_all kvs) = Some (outs, t')"
    using Cons.prems(1) by (simp add: set_all_def)
  obtain t1 where s: "setitem keq hf m t (fst kv) (snd kv) = Some t1"
    using r by (cases "setitem keq hf m t (fst kv) (snd kv)") simp_all
  then obtain outs1 where r1: "run keq hf m t1 (set_all kvs) = Some (outs1, t')"
    using r by (cases "run keq hf m t1 (set_all kvs)") auto
  have p: "keq (fst kv) (fst kv)" and ab: "\<forall>k' \<in> set (keys t). \<not> keq k' (fst kv)"
    using Cons.prems(5) by simp_all
  have f: "dll_find keq (t_keys_list t) (fst kv) = None"
    using ab by (simp add: dll_find_None_iff keys_def iter_def)
  have a: "proper_part keq (t_keys_list t @ [(fst kv, snd kv)]) = t_keys_list t @ [(fst kv, snd kv)]"
    using Cons.prems(3) p by (rule all_proper_appended)
  have "after_set keq hf t (fst kv) (snd kv) t1" using E Cons.prems(2) s by (rule setitem_after)
  then have t1: "table_inv keq hf t1" "t_keys_list t1 = t_keys_list t @ [kv]" "grown t t1"
    using f a by (simp_all add: after_set_def split: if_splits)
  have a1: "all_proper keq t1" using Cons.prems(3) p by (simp add: all_proper_def t1(2))
  have d: "unique_keys keq (map fst kvs)" and n: "\<forall>k \<in> set (map fst kvs). \<not> keq (fst kv) k"
    using Cons.prems(4) by simp_all
  have e: "\<forall>k \<in> set (map fst kvs). keq k k \<and> (\<forall>k' \<in> set (keys t1). \<not> keq k' k)"
    using Cons.prems(5) n by (simp add: keys_def iter_def t1(2))
  have "table_inv keq hf t' \<and> all_proper keq t' \<and> t_keys_list t' = t_keys_list t1 @ kvs \<and>
        grown t1 t'"
    using r1 t1(1) a1 d e by (rule Cons.IH)
  then show ?case using t1(2,3) by (simp add: grown_def)
qed

lemma ex_contract: "key_contract ex_eq ex_hash"
proof -
  have s: "ex_eq b a" if "ex_eq a b" for a b using that by (cases a; cases b) simp_all
  have t: "ex_eq a c" if "ex_eq a b" "ex_eq b c" for a b c
    using that by (cases a; cases b; cases c) simp_all
  have h: "ex_hash a = ex_hash b" if "ex_eq a b" for a b using that by (cases a; cases b) simp_all
  show ?thesis unfolding key_contract_def using s t h by blast
qed

lemma ex_new_init: "init 2 (3 / 4) = Inr ex_new"
  by (simp add: init_def ex_new_def numeral_eq_Suc)

lemma ex_eight_init: "init 8 (3 / 4) = Inr ex_eight"
  by (simp add: init_def ex_eight_def numeral_eq_Suc)

lemma ex_tiny_init: "init 1 double_0_4 = Inr ex_tiny"
  by (simp add: init_def ex_tiny_def double_0_4_def)

lemma ex_third_init: "init 3 double_third = Inr ex_third"
  by (simp add: init_def ex_third_def double_third_def numeral_eq_Suc)

section \<open>Claims\<close>

text \<open>Claim C7. Construction raises \<^verbatim>\<open>ValueError\<close> (the specification's
  InvalidConfiguration) exactly when the initial capacity is not positive or the load factor is
  not in \<open>(0, 1]\<close>; with valid arguments it yields an empty map with the given capacity and
  threshold. The defaults are 8 and 0.75.\<close>

theorem construction_validates:
  "(init c lf = (Inl ValueError :: error + ('k, 'v) table)
      \<longleftrightarrow> c \<le> 0 \<or> \<not> (0 < lf \<and> lf \<le> 1)) \<and>
   (0 < c \<and> 0 < lf \<and> lf \<le> 1 \<longrightarrow>
      (\<exists>t :: ('k, 'v) table. init c lf = Inr t \<and> t_capacity t = c \<and> t_load_factor t = lf \<and>
         len t = 0 \<and> keys t = [] \<and> items t = [] \<and> (\<forall>key. \<not> contains keq hf t key))) \<and>
   (init_default :: error + ('k, 'v) table) = init 8 (3 / 4)"
  by (simp add: init_def init_default_def len_def keys_def iter_def items_def contains_def
      hash_index_def)

theorem construction_validates_witness:
  "(0 :: int) < 4 \<and> (0 :: real) < 3 / 4 \<and> (3 / 4 :: real) \<le> 1 \<and>
   (init 4 (3 / 4) :: error + (ex_key, int) table)
     = Inr \<lparr>t_capacity = 4, t_load_factor = 3 / 4, t_buckets = [[], [], [], []],
            t_size = 0, t_keys_list = []\<rparr> \<and>
   (init 0 (3 / 4) :: error + (ex_key, int) table) = Inl ValueError \<and>
   (init 4 0 :: error + (ex_key, int) table) = Inl ValueError"
  using construction_validates [of 4 "3 / 4" ex_eq ex_hash]
    construction_validates [of 0 "3 / 4" ex_eq ex_hash]
    construction_validates [of 4 0 ex_eq ex_hash]
  by (auto simp: init_def numeral_eq_Suc)

text \<open>Claim C3, as stated, fails for a key that does not compare equal to itself. On a new
  table \<^verbatim>\<open>t[float('nan')] = 1\<close> appends a node, and \<^verbatim>\<open>t[float('nan')]\<close> then raises
  \<^verbatim>\<open>KeyError\<close>: \<^verbatim>\<open>find\<close> compares with \<^verbatim>\<open>==\<close> and finds no node.\<close>

theorem set_then_get_counterexample:
  "init 2 (3 / 4) = Inr ex_new \<and>
   setitem ex_eq ex_hash 0 ex_new NaN 1 = Some ex_nan \<and>
   getitem ex_eq ex_hash ex_nan NaN = Inl KeyError"
proof -
  have "setitem ex_eq ex_hash 0 ex_new NaN 1 = Some ex_nan" by code_simp
  moreover have "getitem ex_eq ex_hash ex_nan NaN = Inl KeyError" by code_simp
  ultimately show ?thesis using ex_new_init by blast
qed

text \<open>Claim C3, amended. For keys that satisfy Python's contract (\<^verbatim>\<open>==\<close> symmetric and
  transitive, equal keys hash equally), in every state that a sequence of operations reaches
  from a constructed table and for every key that compares equal to itself, \<^verbatim>\<open>set(k, v)\<close>
  returns (for a sufficient depth bound) and an immediate \<^verbatim>\<open>get(k)\<close> returns \<open>v\<close>. The
  history may hold any keys.\<close>

theorem set_then_get:
  assumes "key_contract keq hf" and "init c lf = Inr t0"
    and "run keq hf n t0 ops = Some (outs, t)" and "keq key key"
  shows "(\<exists>m t'. setitem keq hf m t key val = Some t') \<and>
         (\<forall>m t'. setitem keq hf m t key val = Some t' \<longrightarrow>
            getitem keq hf t' key = Inr val \<and> (\<forall>dflt. get keq hf t' key dflt = Inr val))"
proof -
  have i: "table_inv keq hf t" using assms(1,2,3) by (rule reach_inv)
  have "getitem keq hf t' key = Inr val \<and> (\<forall>dflt. get keq hf t' key dflt = Inr val)"
    if s: "setitem keq hf m t key val = Some t'" for m t'
  proof -
    have a: "after_set keq hf t key val t'" using assms(1) i s by (rule setitem_after)
    then have i': "table_inv keq hf t'" by (simp add: after_set_def)
    obtain k0 where "dll_find keq (t_keys_list t') key = Some (k0, val)"
      using after_set_find [OF assms(1,4) a] by blast
    then have "getitem keq hf t' key = Inr val" using assms(1) i' by (simp add: inv_getitem)
    then show ?thesis by (simp add: get_def)
  qed
  then show ?thesis using setitem_total [OF assms(1) i, of key val] by blast
qed

theorem set_then_get_witness:
  "init 8 (3 / 4) = Inr ex_eight \<and>
   run ex_eq ex_hash 0 ex_eight [Set NaN 1] = Some ([Done], ex_eight_nan) \<and>
   ex_eq (Num 2) (Num 2) \<and>
   setitem ex_eq ex_hash 0 ex_eight_nan (Num 2) 20 = Some ex_nan_and_two \<and>
   getitem ex_eq ex_hash ex_nan_and_two (Num 2) = Inr 20"
proof -
  have h3: "run ex_eq ex_hash 0 ex_eight [Set NaN 1] = Some ([Done], ex_eight_nan)"
    by code_simp
  have h4: "ex_eq (Num 2) (Num 2)" by simp
  have s: "setitem ex_eq ex_hash 0 ex_eight_nan (Num 2) 20 = Some ex_nan_and_two" by code_simp
  have "getitem ex_eq ex_hash ex_nan_and_two (Num 2) = Inr 20"
    using set_then_get [OF ex_contract ex_eight_init h3 h4, of 20] s by blast
  then show ?thesis using ex_contract ex_eight_init h3 h4 s by blast
qed

text \<open>Claim C4. For keys that satisfy Python's contract, in every reached state: deleting a
  contained key succeeds, after which the key is not contained and the length is one less;
  deleting a key that is not contained raises \<^verbatim>\<open>KeyError\<close> and leaves the table as it
  was.\<close>

theorem delete_present_absent:
  assumes "key_contract keq hf" and "init c lf = Inr t0"
    and "run keq hf n t0 ops = Some (outs, t)"
  shows "(contains keq hf t key \<longrightarrow>
            (\<exists>t'. delitem keq hf t key = Inr t' \<and> \<not> contains keq hf t' key \<and>
                  len t' = len t - 1)) \<and>
         (\<not> contains keq hf t key \<longrightarrow>
            delitem keq hf t key = Inl KeyError \<and>
            apply_op keq hf m t (Delete key) = Some (Raised KeyError, t))"
proof -
  have i: "table_inv keq hf t" using assms by (rule reach_inv)
  have absent: "delitem keq hf t key = Inl KeyError" if "\<not> contains keq hf t key"
    using that delitem_sound [OF assms(1) i, of key] by simp
  have present: "\<exists>t'. delitem keq hf t key = Inr t' \<and> \<not> contains keq hf t' key \<and>
                      len t' = len t - 1"
    if "contains keq hf t key"
  proof -
    have "\<exists>t'. delitem keq hf t key = Inr t'"
      using that delitem_sound [OF assms(1) i, of key] by simp
    then obtain t' where d: "delitem keq hf t key = Inr t'" ..
    have t': "table_inv keq hf t'" "t_keys_list t' = dll_remove keq (t_keys_list t) key"
      "len t' = len t - 1"
      using delitem_inv(1,2,6) [OF assms(1) i d] by simp_all
    have "unique_keys keq (map fst (t_keys_list t))" using i by (simp add: table_inv_def)
    with assms(1) have "\<forall>nd \<in> set (dll_remove keq (t_keys_list t) key). \<not> keq (fst nd) key"
      by (rule remove_no_match)
    then have "\<not> contains keq hf t' key"
      using assms(1) t'(1,2) by (simp add: inv_contains keys_def iter_def)
    then show ?thesis using d t'(3) by blast
  qed
  show ?thesis using absent present by simp
qed

theorem delete_present_absent_witness:
  "init 8 (3 / 4) = Inr ex_eight \<and>
   run ex_eq ex_hash 0 ex_eight [Set NaN 1, Set (Num 2) 20] = Some ([Done, Done], ex_nan_and_two) \<and>
   contains ex_eq ex_hash ex_nan_and_two (Num 2) \<and>
   delitem ex_eq ex_hash ex_nan_and_two (Num 2) = Inr ex_eight_nan \<and>
   contains ex_eq ex_hash ex_eight_nan (Num 2) = False \<and>
   len ex_eight_nan = len ex_nan_and_two - 1 \<and>
   contains ex_eq ex_hash ex_nan_and_two (Num 5) = False \<and>
   delitem ex_eq ex_hash ex_nan_and_two (Num 5) = Inl KeyError \<and>
   contains ex_eq ex_hash ex_nan_and_two NaN = False \<and>
   delitem ex_eq ex_hash ex_nan_and_two NaN = Inl KeyError"
proof -
  have h3: "run ex_eq ex_hash 0 ex_eight [Set NaN 1, Set (Num 2) 20]
              = Some ([Done, Done], ex_nan_and_two)"
    by code_simp
  have c2: "contains ex_eq ex_hash ex_nan_and_two (Num 2)" by code_simp
  have c5: "\<not> contains ex_eq ex_hash ex_nan_and_two (Num 5)" by code_simp
  have cn: "\<not> contains ex_eq ex_hash ex_nan_and_two NaN" by code_simp
  have d2: "delitem ex_eq ex_hash ex_nan_and_two (Num 2) = Inr ex_eight_nan" by code_simp
  note thm2 = delete_present_absent [OF ex_contract ex_eight_init h3, of "Num 2" 0]
  note thm5 = delete_present_absent [OF ex_contract ex_eight_init h3, of "Num 5" 0]
  note thmn = delete_present_absent [OF ex_contract ex_eight_init h3, of NaN 0]
  have a: "\<not> contains ex_eq ex_hash ex_eight_nan (Num 2) \<and>
           len ex_eight_nan = len ex_nan_and_two - 1"
    using thm2 c2 d2 by auto
  have b: "delitem ex_eq ex_hash ex_nan_and_two (Num 5) = Inl KeyError" using thm5 c5 by blast
  have c: "delitem ex_eq ex_hash ex_nan_and_two NaN = Inl KeyError" using thmn cn by blast
  show ?thesis using ex_contract ex_eight_init h3 c2 d2 a c5 b cn c by simp
qed

text \<open>Claim C5, as stated, fails for a key that does not compare equal to itself. After
  \<^verbatim>\<open>t[float('nan')] = 1\<close> the key is listed by \<^verbatim>\<open>keys()\<close> and is not contained; after the
  next insert, which resizes a table of capacity 2, it is no longer listed although it was
  never deleted: the rehash looks every key up with \<^verbatim>\<open>find\<close> and skips the keys that it
  does not find.\<close>

theorem keys_enumerates_counterexample:
  "init 2 (3 / 4) = Inr ex_new \<and>
   run ex_eq ex_hash 0 ex_new [Set NaN 1] = Some ([Done], ex_nan) \<and>
   keys ex_nan = [NaN] \<and> contains ex_eq ex_hash ex_nan NaN = False \<and>
   run ex_eq ex_hash 1 ex_new [Set NaN 1, Set (Num 1) 2] = Some ([Done, Done], ex_nan_dropped) \<and>
   keys ex_nan_dropped = [Num 1] \<and> len ex_nan_dropped = 1"
proof -
  have "run ex_eq ex_hash 0 ex_new [Set NaN 1] = Some ([Done], ex_nan)" by code_simp
  moreover have "keys ex_nan = [NaN]" by code_simp
  moreover have "contains ex_eq ex_hash ex_nan NaN = False" by code_simp
  moreover have "run ex_eq ex_hash 1 ex_new [Set NaN 1, Set (Num 1) 2]
                   = Some ([Done, Done], ex_nan_dropped)"
    by code_simp
  moreover have "keys ex_nan_dropped = [Num 1]" by code_simp
  moreover have "len ex_nan_dropped = 1" by code_simp
  ultimately show ?thesis using ex_new_init by blast
qed

text \<open>Claim C5, amended. For keys that satisfy Python's contract, in every state reached by a
  sequence of operations the length of \<^verbatim>\<open>keys()\<close> is \<^verbatim>\<open>len\<close>, no two listed keys compare
  equal, and a key is contained exactly when a listed key compares equal to it. When every
  key that the history inserted compares equal to itself, \<^verbatim>\<open>keys()\<close> lists exactly the live
  keys of the history in the order of their first insertion, and every listed key is
  contained.\<close>

theorem keys_enumerates_live:
  assumes "key_contract keq hf" and "init c lf = Inr t0"
    and "run keq hf n t0 ops = Some (outs, t)"
  shows "int (length (keys t)) = len t \<and> unique_keys keq (keys t) \<and>
         (\<forall>key. contains keq hf t key \<longleftrightarrow> (\<exists>k \<in> set (keys t). keq k key)) \<and>
         (proper_history keq ops \<longrightarrow>
            keys t = insertion_order keq ops \<and> (\<forall>k \<in> set (keys t). contains keq hf t k))"
proof -
  have i: "table_inv keq hf t" using assms by (rule reach_inv)
  have 1: "int (length (keys t)) = len t" using inv_len [OF i] by simp
  have 2: "unique_keys keq (keys t)" using i by (simp add: table_inv_def keys_def iter_def)
  have 3: "\<forall>key. contains keq hf t key \<longleftrightarrow> (\<exists>k \<in> set (keys t). keq k key)"
    using inv_contains [OF assms(1) i] by simp
  have 4: "keys t = insertion_order keq ops \<and> (\<forall>k \<in> set (keys t). contains keq hf t k)"
    if p: "proper_history keq ops"
  proof -
    have a: "all_proper keq t" and k: "keys t = insertion_order keq ops"
      using reach_exact [OF assms p] by simp_all
    have "contains keq hf t k" if "k \<in> set (keys t)" for k
    proof -
      have "keq k k" using a that by (auto simp: all_proper_def keys_def iter_def)
      then show ?thesis using 3 that by blast
    qed
    then show ?thesis using k by simp
  qed
  show ?thesis using 1 2 3 4 by blast
qed

theorem keys_enumerates_live_witness:
  "init 2 (3 / 4) = Inr ex_new \<and>
   run ex_eq ex_hash 1 ex_new
       [Set (Num 5) 50, Set (Num 2) 20, Set (Num 5) 51, Delete (Num 2), Set (Num 2) 21]
     = Some ([Done, Done, Done, Done, Done], ex_reinserted) \<and>
   keys ex_reinserted = [Num 5, Num 2] \<and> len ex_reinserted = 2 \<and>
   contains ex_eq ex_hash ex_reinserted (Num 2)"
proof -
  let ?ops = "[Set (Num 5) 50, Set (Num 2) 20, Set (Num 5) 51, Delete (Num 2), Set (Num 2) 21]
                :: (ex_key, int) operation list"
  have h3: "run ex_eq ex_hash 1 ex_new ?ops = Some ([Done, Done, Done, Done, Done], ex_reinserted)"
    by code_simp
  have p: "proper_history ex_eq ?ops" by (simp add: proper_history_def)
  have o: "insertion_order ex_eq ?ops = [Num 5, Num 2]" by code_simp
  note live = keys_enumerates_live [OF ex_contract ex_new_init h3]
  have k: "keys ex_reinserted = [Num 5, Num 2]" using live p o by simp
  have "int (length (keys ex_reinserted)) = len ex_reinserted" using live by blast
  then have l: "len ex_reinserted = 2" by (simp add: k)
  have "\<forall>k \<in> set (keys ex_reinserted). contains ex_eq ex_hash ex_reinserted k"
    using live p by blast
  then have "contains ex_eq ex_hash ex_reinserted (Num 2)" by (simp add: k)
  then show ?thesis using ex_contract ex_new_init h3 p k l by blast
qed

text \<open>Claim C8. For keys that satisfy Python's contract: when the history never inserted a key
  that compares equal to \<open>k\<close>, or deleted such a key with no insert of one since,
  \<^verbatim>\<open>get(k, default)\<close> returns the default without raising, \<^verbatim>\<open>contains(k)\<close> is false, and
  no live key of the history compares equal to \<open>k\<close>.\<close>

theorem absent_key_default:
  assumes "key_contract keq hf" and "init c lf = Inr t0"
    and "run keq hf n t0 ops = Some (outs, t)"
    and "(\<forall>k v. Set k v \<in> set ops \<longrightarrow> \<not> keq k key) \<or>
         (\<exists>ops1 k' ops2. ops = ops1 @ Delete k' # ops2 \<and> keq k' key \<and>
            (\<forall>k v. Set k v \<in> set ops2 \<longrightarrow> \<not> keq k key))"
  shows "get keq hf t key dflt = Inr dflt \<and> \<not> contains keq hf t key \<and>
         (\<forall>k \<in> set (insertion_order keq ops). \<not> keq k key)"
proof -
  have i0: "table_inv keq hf t0" using assms(2) by (rule inv_init)
  have e0: "keys t0 = []" using init_empty [OF assms(2)] by (simp add: keys_def iter_def)
  have i: "table_inv keq hf t" using assms(1,2,3) by (rule reach_inv)
  have "(\<forall>k \<in> set (keys t). \<not> keq k key) \<and> (\<forall>k \<in> set (insertion_order keq ops). \<not> keq k key)"
    using assms(4)
  proof
    assume a: "\<forall>k v. Set k v \<in> set ops \<longrightarrow> \<not> keq k key"
    have "\<forall>k \<in> set (keys t0). \<not> keq k key" using e0 by simp
    with assms(1) i0 assms(3) have "\<forall>k \<in> set (keys t). \<not> keq k key"
      using a by (rule run_absent)
    moreover have "\<forall>k \<in> set (insertion_order keq ops). \<not> keq k key"
      using a by (rule insertion_order_never_set)
    ultimately show ?thesis by simp
  next
    assume "\<exists>ops1 k' ops2. ops = ops1 @ Delete k' # ops2 \<and> keq k' key \<and>
              (\<forall>k v. Set k v \<in> set ops2 \<longrightarrow> \<not> keq k key)"
    then obtain ops1 k' ops2 where o: "ops = ops1 @ Delete k' # ops2" and q: "keq k' key"
      and a: "\<forall>k v. Set k v \<in> set ops2 \<longrightarrow> \<not> keq k key"
      by blast
    have "run keq hf n t0 (ops1 @ Delete k' # ops2) = Some (outs, t)" using assms(3) o by simp
    then obtain o1 t1 o2 where r1: "run keq hf n t0 ops1 = Some (o1, t1)"
      and r2: "run keq hf n t1 (Delete k' # ops2) = Some (o2, t)"
      using run_append by blast
    have i1: "table_inv keq hf t1" using run_inv [OF assms(1) i0 r1] by simp
    have "\<exists>r. apply_op keq hf n t1 (Delete k') = Some r" by simp
    then obtain out t2 where d: "apply_op keq hf n t1 (Delete k') = Some (out, t2)" by force
    then obtain o3 where r3: "run keq hf n t2 ops2 = Some (o3, t)"
      using r2 by (cases "run keq hf n t2 ops2") auto
    have i2: "table_inv keq hf t2" using apply_op_inv(1) [OF assms(1) i1 d] .
    have "keys t2 = filter (\<lambda>k. \<not> keq k k') (keys t1)"
    proof (cases "delitem keq hf t1 k'")
      case (Inl e)
      then have "t2 = t1" using d by simp
      moreover have "\<not> contains keq hf t1 k'"
        using Inl delitem_sound [OF assms(1) i1, of k'] by (simp split: if_splits)
      then have "\<forall>k \<in> set (keys t1). \<not> keq k k'"
        using inv_contains [OF assms(1) i1, of k'] by simp
      then have "filter (\<lambda>k. \<not> keq k k') (keys t1) = keys t1" by (intro filter_True) auto
      ultimately show ?thesis by simp
    next
      case (Inr t3)
      then have "t2 = t3" using d by simp
      then show ?thesis using delitem_inv(3) [OF assms(1) i1 Inr] by simp
    qed
    moreover have "\<forall>k \<in> set (filter (\<lambda>k. \<not> keq k k') (keys t1)). \<not> keq k key"
      using assms(1) q by (rule filter_no_match)
    ultimately have "\<forall>k \<in> set (keys t2). \<not> keq k key" by simp
    with assms(1) i2 r3 have "\<forall>k \<in> set (keys t). \<not> keq k key"
      using a by (rule run_absent)
    moreover have "\<forall>k \<in> set (insertion_order keq (ops1 @ Delete k' # ops2)). \<not> keq k key"
      using assms(1) q a by (rule insertion_order_since_deleted)
    ultimately show ?thesis unfolding o by simp
  qed
  then have n: "\<forall>k \<in> set (keys t). \<not> keq k key"
    and l: "\<forall>k \<in> set (insertion_order keq ops). \<not> keq k key"
    by simp_all
  have c: "\<not> contains keq hf t key" using n inv_contains [OF assms(1) i, of key] by simp
  have "dll_find keq (t_keys_list t) key = None"
    using n by (simp add: dll_find_None_iff keys_def iter_def)
  then have "getitem keq hf t key = Inl KeyError" using assms(1) i by (simp add: inv_getitem)
  then have "get keq hf t key dflt = Inr dflt" by (simp add: get_def)
  then show ?thesis using c l by simp
qed

theorem absent_key_default_witness:
  "init 2 (3 / 4) = Inr ex_new \<and>
   run ex_eq ex_hash 1 ex_new [Set (Num 1) 10, Set (Num 2) 20, Delete (Num 1), Get (Num 2)]
     = Some ([Done, Done, Done, Value 20], ex_one) \<and>
   [Set (Num 1) 10, Set (Num 2) 20, Delete (Num 1), Get (Num 2)]
     = [Set (Num 1) 10, Set (Num 2) 20] @ Delete (Num 1) # [Get (Num 2) :: (ex_key, int) operation] \<and>
   ex_eq (Num 1) (Num 1) \<and>
   get ex_eq ex_hash ex_one (Num 1) (-1) = Inr (-1) \<and>
   contains ex_eq ex_hash ex_one (Num 1) = False \<and>
   get ex_eq ex_hash ex_one (Num 9) (-1) = Inr (-1) \<and>
   contains ex_eq ex_hash ex_one (Num 9) = False \<and>
   get ex_eq ex_hash ex_one NaN (-1) = Inr (-1) \<and>
   contains ex_eq ex_hash ex_one NaN = False"
proof -
  let ?ops = "[Set (Num 1) 10, Set (Num 2) 20, Delete (Num 1), Get (Num 2)]
                :: (ex_key, int) operation list"
  have h3: "run ex_eq ex_hash 1 ex_new ?ops = Some ([Done, Done, Done, Value 20], ex_one)"
    by code_simp
  have s: "?ops = [Set (Num 1) 10, Set (Num 2) 20] @ Delete (Num 1) # [Get (Num 2)]" by simp
  have q: "ex_eq (Num 1) (Num 1)" by simp
  have "\<forall>k v. Set k v \<in> set [Get (Num 2) :: (ex_key, int) operation] \<longrightarrow> \<not> ex_eq k (Num 1)"
    by simp
  with s q have "?ops = [Set (Num 1) 10, Set (Num 2) 20] @ Delete (Num 1) # [Get (Num 2)] \<and>
               ex_eq (Num 1) (Num 1) \<and>
               (\<forall>k v. Set k v \<in> set [Get (Num 2) :: (ex_key, int) operation]
                   \<longrightarrow> \<not> ex_eq k (Num 1))"
    by (intro conjI)
  then have "\<exists>ops1 k' ops2. ?ops = ops1 @ Delete k' # ops2 \<and> ex_eq k' (Num 1) \<and>
               (\<forall>k v. Set k v \<in> set ops2 \<longrightarrow> \<not> ex_eq k (Num 1))"
    by (intro exI)
  then have h4: "(\<forall>k v. Set k v \<in> set ?ops \<longrightarrow> \<not> ex_eq k (Num 1)) \<or>
         (\<exists>ops1 k' ops2. ?ops = ops1 @ Delete k' # ops2 \<and> ex_eq k' (Num 1) \<and>
               (\<forall>k v. Set k v \<in> set ops2 \<longrightarrow> \<not> ex_eq k (Num 1)))"
    by (rule disjI2)
  have "\<forall>k v. Set k v \<in> set ?ops \<longrightarrow> \<not> ex_eq k (Num 9)" by auto
  then have h4': "(\<forall>k v. Set k v \<in> set ?ops \<longrightarrow> \<not> ex_eq k (Num 9)) \<or>
         (\<exists>ops1 k' ops2. ?ops = ops1 @ Delete k' # ops2 \<and> ex_eq k' (Num 9) \<and>
               (\<forall>k v. Set k v \<in> set ops2 \<longrightarrow> \<not> ex_eq k (Num 9)))"
    by (rule disjI1)
  have "\<forall>k v. Set k v \<in> set ?ops \<longrightarrow> \<not> ex_eq k NaN"
  proof (intro allI impI)
    fix k :: ex_key and v :: int
    show "\<not> ex_eq k NaN" by (cases k) simp_all
  qed
  then have h4'': "(\<forall>k v. Set k v \<in> set ?ops \<longrightarrow> \<not> ex_eq k NaN) \<or>
         (\<exists>ops1 k' ops2. ?ops = ops1 @ Delete k' # ops2 \<and> ex_eq k' NaN \<and>
               (\<forall>k v. Set k v \<in> set ops2 \<longrightarrow> \<not> ex_eq k NaN))"
    by (rule disjI1)
  have a: "get ex_eq ex_hash ex_one (Num 1) (-1) = Inr (-1) \<and>
           contains ex_eq ex_hash ex_one (Num 1) = False"
    using absent_key_default [OF ex_contract ex_new_init h3 h4, of "-1"] by simp
  have b: "get ex_eq ex_hash ex_one (Num 9) (-1) = Inr (-1) \<and>
           contains ex_eq ex_hash ex_one (Num 9) = False"
    using absent_key_default [OF ex_contract ex_new_init h3 h4', of "-1"] by simp
  have c: "get ex_eq ex_hash ex_one NaN (-1) = Inr (-1) \<and>
           contains ex_eq ex_hash ex_one NaN = False"
    using absent_key_default [OF ex_contract ex_new_init h3 h4'', of "-1"] by simp
  show ?thesis using ex_contract ex_new_init h3 s q a b c by blast
qed

text \<open>Claim C9. With valid construction arguments both classes build the same table, and every
  sequence of set, get, delete, contains, length and key-iteration steps gives the same
  results, the same errors and the same final table in both, whatever the keys; for keys
  that satisfy Python's contract and a sufficient depth bound the sequence runs to its end.\<close>

theorem implementations_agree:
  fixes keq :: "'k key_eq" and hf :: "'k \<Rightarrow> int"
  assumes "0 < c" and "0 < lf" and "lf \<le> 1"
  shows "init c lf = Inr (nts_init c lf :: ('k, 'v) table) \<and>
         (\<forall>n ops. nts_run keq hf n (nts_init c lf :: ('k, 'v) table) ops
                    = run keq hf n (nts_init c lf) ops) \<and>
         (key_contract keq hf \<longrightarrow>
            (\<forall>ops. \<exists>n r. run keq hf n (nts_init c lf :: ('k, 'v) table) ops = Some r))"
proof -
  have i: "init c lf = Inr (nts_init c lf :: ('k, 'v) table)"
    using assms by (simp add: init_def nts_init_def)
  then have "table_inv keq hf (nts_init c lf :: ('k, 'v) table)" by (rule inv_init)
  then have "\<exists>n r. run keq hf n (nts_init c lf :: ('k, 'v) table) ops = Some r"
    if "key_contract keq hf" for ops
    using that run_total by blast
  then show ?thesis using i by (simp add: nts_run_eq)
qed

theorem implementations_agree_witness:
  "(0 :: int) < 2 \<and> (0 :: real) < 3 / 4 \<and> (3 / 4 :: real) \<le> 1 \<and>
   init 2 (3 / 4) = Inr (nts_init 2 (3 / 4) :: (ex_key, int) table) \<and>
   nts_run ex_eq ex_hash 1 (nts_init 2 (3 / 4))
       [Set (Num 1) 10, Set (Num 2) 20, Get (Num 1), Delete (Num 1), Delete (Num 1),
        Get (Num 1), GetDefault (Num 1) 0, Contains (Num 2), Length, Keys]
     = Some ([Done, Done, Value 10, Done, Raised KeyError, Raised KeyError, Value 0, Flag True,
              Count 1, KeyList [Num 2]], ex_one) \<and>
   run ex_eq ex_hash 1 (nts_init 2 (3 / 4))
       [Set (Num 1) 10, Set (Num 2) 20, Get (Num 1), Delete (Num 1), Delete (Num 1),
        Get (Num 1), GetDefault (Num 1) 0, Contains (Num 2), Length, Keys]
     = Some ([Done, Done, Value 10, Done, Raised KeyError, Raised KeyError, Value 0, Flag True,
              Count 1, KeyList [Num 2]], ex_one)"
proof -
  let ?ops = "[Set (Num 1) 10, Set (Num 2) 20, Get (Num 1), Delete (Num 1), Delete (Num 1),
               Get (Num 1), GetDefault (Num 1) 0, Contains (Num 2), Length, Keys]
                :: (ex_key, int) operation list"
  have h: "(0 :: int) < 2" "(0 :: real) < 3 / 4" "(3 / 4 :: real) \<le> 1" by simp_all
  note agree = implementations_agree [OF h, of ex_eq ex_hash]
  have r: "run ex_eq ex_hash 1 (nts_init 2 (3 / 4)) ?ops
             = Some ([Done, Done, Value 10, Done, Raised KeyError, Raised KeyError, Value 0,
                      Flag True, Count 1, KeyList [Num 2]], ex_one)"
    by code_simp
  have e: "nts_run ex_eq ex_hash 1 (nts_init 2 (3 / 4)) ?ops
             = run ex_eq ex_hash 1 (nts_init 2 (3 / 4)) ?ops"
    using agree by blast
  have i: "init 2 (3 / 4) = Inr (nts_init 2 (3 / 4) :: (ex_key, int) table)"
    using agree by blast
  show ?thesis using h ex_contract i r e [unfolded r] by blast
qed

text \<open>Claim C6, as stated, fails. With capacity 1 and threshold 0.4 the first insert finds
  \<open>1 / 1 > 0.4\<close> and the capacity ends at 4, not at \<open>1 * 2\<close>: the rehash re-inserts the key
  with \<^verbatim>\<open>self[key] = ...\<close>, which finds \<open>1 / 2 > 0.4\<close> and resizes again.\<close>

theorem capacity_doubles_counterexample:
  "init 1 double_0_4 = Inr ex_tiny \<and>
   contains ex_eq ex_hash ex_tiny (Num 7) = False \<and>
   t_load_factor ex_tiny < py_truediv (len ex_tiny + 1) (t_capacity ex_tiny) \<and>
   setitem ex_eq ex_hash 2 ex_tiny (Num 7) 70 = Some ex_tiny_grown \<and>
   t_capacity ex_tiny * 2 = 2 \<and>
   t_capacity ex_tiny_grown = 4 \<and>
   t_capacity ex_tiny_grown \<noteq> t_capacity ex_tiny * 2"
proof -
  have "contains ex_eq ex_hash ex_tiny (Num 7) = False" by code_simp
  moreover have "t_load_factor ex_tiny < py_truediv (len ex_tiny + 1) (t_capacity ex_tiny)"
    by code_simp
  moreover have "setitem ex_eq ex_hash 2 ex_tiny (Num 7) 70 = Some ex_tiny_grown" by code_simp
  moreover have "t_capacity ex_tiny * 2 = 2" by (simp add: ex_tiny_def)
  moreover have "t_capacity ex_tiny_grown = 4" by (simp add: ex_tiny_grown_def)
  moreover have "t_capacity ex_tiny_grown \<noteq> t_capacity ex_tiny * 2"
    by (simp add: ex_tiny_def ex_tiny_grown_def)
  ultimately show ?thesis using ex_tiny_init by blast
qed

text \<open>Claim C6, amended. Quotients are the float quotients that Python computes. After the
  insert of a key that is not contained, the capacity is unchanged exactly when the entry
  count over the capacity does not exceed the threshold at that moment. Otherwise
  \<^verbatim>\<open>_resize\<close> is entered with twice the capacity, and because the rehash re-inserts through
  \<^verbatim>\<open>__setitem__\<close> the doubling repeats while the entries that the rehash keeps exceed the
  threshold: the final capacity is \<open>capacity * 2 ^ d\<close> for the least \<open>d\<close> at which the
  threshold holds, and exactly twice the capacity when one doubling suffices. The rehash
  keeps the entries whose keys compare equal to themselves; when all do, or when there is
  no resize, the entry count grows by one. A delete never changes the capacity, and
  \<^verbatim>\<open>_resize\<close> on a table whose load factor does not exceed the threshold returns it
  unchanged.\<close>

theorem capacity_growth:
  fixes keq :: "'k key_eq" and hf :: "'k \<Rightarrow> int" and t :: "('k, 'v) table"
  assumes "key_contract keq hf" and "init c lf = Inr t0"
    and "run keq hf n t0 ops = Some (outs, t)"
    and "\<not> contains keq hf t key" and "setitem keq hf m t key val = Some t'"
  shows "(t_capacity t' = t_capacity t \<longleftrightarrow>
            \<not> t_load_factor t < py_truediv (len t + 1) (t_capacity t)) \<and>
         (\<exists>d. t_capacity t' = t_capacity t * 2 ^ d \<and>
              (\<forall>j<d. t_load_factor t
                         < py_truediv (if j = 0 then len t + 1 else len t')
                             (t_capacity t * 2 ^ j)) \<and>
              \<not> t_load_factor t < py_truediv (len t') (t_capacity t * 2 ^ d)) \<and>
         (t_load_factor t < py_truediv (len t + 1) (t_capacity t) \<and>
          \<not> t_load_factor t < py_truediv (len t') (t_capacity t * 2)
            \<longrightarrow> t_capacity t' = t_capacity t * 2) \<and>
         len t' \<le> len t + 1 \<and>
         (t_capacity t' = t_capacity t \<or> (all_proper keq t \<and> keq key key)
            \<longrightarrow> len t' = len t + 1) \<and>
         (\<forall>k t''. delitem keq hf t k = Inr t'' \<longrightarrow> t_capacity t'' = t_capacity t) \<and>
         (\<forall>j c' (x :: ('k, 'v) table). \<not> load_exceeded x \<longrightarrow> resize keq hf j x c' = Some x)"
proof -
  let ?lf = "t_load_factor t" and ?c = "t_capacity t"
  have i: "table_inv keq hf t" using assms(1,2,3) by (rule reach_inv)
  have pos: "0 < ?c" using i by (simp add: table_inv_def)
  have absent: "dll_find keq (t_keys_list t) key = None"
    using assms(4) inv_contains [OF assms(1) i, of key]
    by (simp add: dll_find_None_iff keys_def iter_def)
  have over: "overfull t \<longleftrightarrow> ?lf < py_truediv (len t + 1) ?c"
    by (simp add: overfull_def len_def)
  have as: "after_set keq hf t key val t'" using assms(1) i assms(5) by (rule setitem_after)
  then have i': "table_inv keq hf t'" and lf': "t_load_factor t' = ?lf"
    by (simp_all add: after_set_def grown_def)
  have sz: "len t = int (length (t_keys_list t))" "len t' = int (length (t_keys_list t'))"
    using i i' by (simp_all add: table_inv_def len_def)
  have same: "t_capacity t' = ?c \<longleftrightarrow> \<not> overfull t"
    using as absent by (auto simp: after_set_def)
  have kl: "t_keys_list t' = (if overfull t then proper_part keq (t_keys_list t @ [(key, val)])
                             else t_keys_list t @ [(key, val)])"
    using as absent by (simp add: after_set_def)
  have le: "len t' \<le> len t + 1"
    using kl sz length_proper_part [of keq "t_keys_list t @ [(key, val)]"] by auto
  have eq: "len t' = len t + 1" if "t_capacity t' = ?c \<or> (all_proper keq t \<and> keq key key)"
    using that
  proof
    assume "t_capacity t' = ?c"
    then show ?thesis using same kl sz by simp
  next
    assume "all_proper keq t \<and> keq key key"
    then have "proper_part keq (t_keys_list t @ [(key, val)]) = t_keys_list t @ [(key, val)]"
      by (simp add: all_proper_appended)
    then show ?thesis using kl sz by simp
  qed
  have "set_settled keq t key t'" using assms(1) i assms(5) by (rule setitem_capacity(1))
  then have ca: "cap_after ?lf ?c (len t + 1) (len t') (t_capacity t')"
    and ne: "\<not> load_exceeded t'"
    using absent by (simp_all add: set_settled_def len_def)
  have fin: "\<not> ?lf < py_truediv (len t') (t_capacity t')"
    using ne lf' by (simp add: load_exceeded_def len_def)
  have grow: "\<exists>d. t_capacity t' = ?c * 2 ^ d \<and>
              (\<forall>j<d. ?lf < py_truediv (if j = 0 then len t + 1 else len t') (?c * 2 ^ j)) \<and>
              \<not> ?lf < py_truediv (len t') (?c * 2 ^ d)"
  proof (cases "overfull t")
    case False
    then have "t_capacity t' = ?c * 2 ^ 0" using same by simp
    moreover have "\<not> ?lf < py_truediv (len t') (?c * 2 ^ 0)" using fin same False by simp
    ultimately show ?thesis by blast
  next
    case True
    then have "doublings ?lf (?c * 2) (len t') (t_capacity t')"
      using ca over by (simp add: cap_after_def)
    then obtain d0 where d0: "t_capacity t' = ?c * 2 * 2 ^ d0"
      "\<forall>j<d0. ?lf < py_truediv (len t') (?c * 2 * 2 ^ j)"
      unfolding doublings_def by blast
    have 1: "t_capacity t' = ?c * 2 ^ Suc d0" using d0(1) by simp
    have 2: "?lf < py_truediv (if j = 0 then len t + 1 else len t') (?c * 2 ^ j)"
      if "j < Suc d0" for j
    proof (cases j)
      case 0
      then show ?thesis using True over by simp
    next
      case (Suc j')
      then have "j' < d0" using that by simp
      then have "?lf < py_truediv (len t') (?c * 2 * 2 ^ j')" using d0(2) by simp
      then show ?thesis using Suc by (simp add: mult.assoc)
    qed
    have 3: "\<not> ?lf < py_truediv (len t') (?c * 2 ^ Suc d0)" using fin 1 by simp
    show ?thesis using 1 2 3 by blast
  qed
  have one: "t_capacity t' = ?c * 2"
    if "?lf < py_truediv (len t + 1) ?c" "\<not> ?lf < py_truediv (len t') (?c * 2)"
  proof -
    have "doublings ?lf (?c * 2) (len t') (t_capacity t')"
      using ca that(1) by (simp add: cap_after_def)
    then obtain d0 where d0: "t_capacity t' = ?c * 2 * 2 ^ d0"
      "\<forall>j<d0. ?lf < py_truediv (len t') (?c * 2 * 2 ^ j)"
      unfolding doublings_def by blast
    have "d0 = 0"
    proof (rule ccontr)
      assume "d0 \<noteq> 0"
      then have "?lf < py_truediv (len t') (?c * 2 * 2 ^ 0)" using d0(2) by blast
      then show False using that(2) by simp
    qed
    then show ?thesis using d0(1) by simp
  qed
  have 1: "t_capacity t' = ?c \<longleftrightarrow> \<not> ?lf < py_truediv (len t + 1) ?c"
    using same over by simp
  have 4: "\<forall>k t''. delitem keq hf t k = Inr t'' \<longrightarrow> t_capacity t'' = ?c"
    using delitem_inv(4) [OF assms(1) i] by blast
  have 5: "\<forall>j c' x. \<not> load_exceeded x \<longrightarrow> resize keq hf j x c' = Some (x :: ('k, 'v) table)"
    by (simp add: resize_unfold)
  show ?thesis using 1 grow one le eq 4 5 by blast
qed

theorem capacity_growth_witness:
  "init 1 double_0_4 = Inr ex_tiny \<and>
   run ex_eq ex_hash 0 ex_tiny [] = Some ([], ex_tiny) \<and>
   contains ex_eq ex_hash ex_tiny (Num 7) = False \<and>
   setitem ex_eq ex_hash 2 ex_tiny (Num 7) 70 = Some ex_tiny_grown \<and>
   (t_capacity ex_tiny_grown = t_capacity ex_tiny)
     = (\<not> t_load_factor ex_tiny < py_truediv (len ex_tiny + 1) (t_capacity ex_tiny)) \<and>
   init 3 double_third = Inr ex_third \<and>
   run ex_eq ex_hash 0 ex_third [] = Some ([], ex_third) \<and>
   contains ex_eq ex_hash ex_third (Num 7) = False \<and>
   setitem ex_eq ex_hash 0 ex_third (Num 7) 70 = Some ex_third_one \<and>
   (t_capacity ex_third_one = t_capacity ex_third)
     = (\<not> t_load_factor ex_third < py_truediv (len ex_third + 1) (t_capacity ex_third)) \<and>
   t_capacity ex_third_one = 3 \<and> t_load_factor ex_third < 1 / 3"
proof -
  have h3: "run ex_eq ex_hash 0 ex_tiny [] = Some ([], ex_tiny)" by simp
  have h4: "\<not> contains ex_eq ex_hash ex_tiny (Num 7)" by code_simp
  have h5: "setitem ex_eq ex_hash 2 ex_tiny (Num 7) 70 = Some ex_tiny_grown" by code_simp
  note growth = capacity_growth [OF ex_contract ex_tiny_init h3 h4 h5]
  have a: "(t_capacity ex_tiny_grown = t_capacity ex_tiny)
          = (\<not> t_load_factor ex_tiny < py_truediv (len ex_tiny + 1) (t_capacity ex_tiny))"
    using growth by blast
  have g3: "run ex_eq ex_hash 0 ex_third [] = Some ([], ex_third)" by simp
  have g4: "\<not> contains ex_eq ex_hash ex_third (Num 7)" by code_simp
  have g5: "setitem ex_eq ex_hash 0 ex_third (Num 7) 70 = Some ex_third_one" by code_simp
  note third = capacity_growth [OF ex_contract ex_third_init g3 g4 g5]
  have b: "(t_capacity ex_third_one = t_capacity ex_third)
          = (\<not> t_load_factor ex_third < py_truediv (len ex_third + 1) (t_capacity ex_third))"
    using third by blast
  have c: "t_capacity ex_third_one = 3" by (simp add: ex_third_one_def)
  have d: "t_load_factor ex_third < 1 / 3" by (simp add: ex_third_def double_third_def)
  show ?thesis using ex_contract ex_tiny_init h3 h4 h5 a ex_third_init g3 g4 g5 b c d by blast
qed




text \<open>Claim C1, as stated, fails when a key does not compare equal to itself. Inserting the
  distinct keys \<^verbatim>\<open>float('nan')\<close> and \<open>1\<close> into a table of capacity 2 crosses the threshold
  at the second insert, and the resize loses the first entry: the rehash looks every key up
  with \<^verbatim>\<open>find\<close>, which compares with \<^verbatim>\<open>==\<close>, and re-inserts only the keys that it
  finds.\<close>

theorem resize_transparent_counterexample:
  "init 2 (3 / 4) = Inr ex_new \<and>
   distinct (map fst [(NaN, 1), (Num 1, 2 :: int)]) \<and>
   run ex_eq ex_hash 1 ex_new (set_all [(NaN, 1), (Num 1, 2)]) = Some ([Done, Done], ex_nan_dropped) \<and>
   t_capacity ex_new = 2 \<and> t_capacity ex_nan_dropped = 4 \<and>
   len ex_nan_dropped = 1 \<and> items ex_nan_dropped = [(Num 1, 2)] \<and>
   getitem ex_eq ex_hash ex_nan_dropped NaN = Inl KeyError"
proof -
  have "distinct (map fst [(NaN, 1), (Num 1, 2 :: int)])" by simp
  moreover have "run ex_eq ex_hash 1 ex_new (set_all [(NaN, 1), (Num 1, 2)])
                   = Some ([Done, Done], ex_nan_dropped)"
    by code_simp
  moreover have "t_capacity ex_new = 2" "t_capacity ex_nan_dropped = 4"
    by (simp_all add: ex_new_def ex_nan_dropped_def)
  moreover have "len ex_nan_dropped = 1" by code_simp
  moreover have "items ex_nan_dropped = [(Num 1, 2)]" by code_simp
  moreover have "getitem ex_eq ex_hash ex_nan_dropped NaN = Inl KeyError" by code_simp
  ultimately show ?thesis using ex_new_init by blast
qed

text \<open>Claim C1, amended. For keys that satisfy Python's contract, from every state reached by
  a history that inserted only keys that compare equal to themselves, inserting entries
  whose keys compare equal to themselves, unequal to each other and unequal to the keys of
  the table returns (for a sufficient depth bound) however many load-factor boundaries it
  crosses, and then no entry is lost or duplicated: the length grows by the number of keys
  inserted, the items are the old items followed by the new ones in insertion order, no two
  keys compare equal, every old and new key maps to its value, and the capacity has not
  shrunk.\<close>

theorem resize_transparent:
  assumes "key_contract keq hf" and "init c lf = Inr t0"
    and "run keq hf n t0 ops = Some (outs, t)" and "proper_history keq ops"
    and "unique_keys keq (map fst kvs)"
    and "\<forall>k \<in> set (map fst kvs). keq k k \<and> (\<forall>k' \<in> set (keys t). \<not> keq k' k)"
  shows "(\<exists>m r. run keq hf m t (set_all kvs) = Some r) \<and>
         (\<forall>m outs' t'. run keq hf m t (set_all kvs) = Some (outs', t') \<longrightarrow>
            len t' = len t + int (length kvs) \<and>
            items t' = items t @ kvs \<and>
            keys t' = keys t @ map fst kvs \<and>
            unique_keys keq (keys t') \<and>
            (\<forall>kv \<in> set (items t) \<union> set kvs. getitem keq hf t' (fst kv) = Inr (snd kv)) \<and>
            t_capacity t \<le> t_capacity t')"
proof -
  have i: "table_inv keq hf t" using assms(1,2,3) by (rule reach_inv)
  have a: "all_proper keq t" using reach_exact(1) [OF assms(1,2,3,4)] .
  have A: "\<exists>m r. run keq hf m t (set_all kvs) = Some r" using assms(1) i by (rule run_total)
  have B: "len t' = len t + int (length kvs) \<and> items t' = items t @ kvs \<and>
           keys t' = keys t @ map fst kvs \<and> unique_keys keq (keys t') \<and>
           (\<forall>kv \<in> set (items t) \<union> set kvs. getitem keq hf t' (fst kv) = Inr (snd kv)) \<and>
           t_capacity t \<le> t_capacity t'"
    if r: "run keq hf m t (set_all kvs) = Some (outs', t')" for m outs' t'
  proof -
    have "table_inv keq hf t' \<and> all_proper keq t' \<and> t_keys_list t' = t_keys_list t @ kvs \<and>
          grown t t'"
      using assms(1) r i a assms(5,6) by (rule set_all_sound)
    then have t': "table_inv keq hf t'" "all_proper keq t'"
      "t_keys_list t' = t_keys_list t @ kvs" "grown t t'"
      by simp_all
    have it: "items t' = items t @ kvs" by (simp add: items_def t'(3))
    have 1: "len t' = len t + int (length kvs)"
      using i t'(1) by (simp add: inv_len keys_def iter_def t'(3))
    have 2: "keys t' = keys t @ map fst kvs" by (simp add: keys_def iter_def t'(3))
    have 3: "unique_keys keq (keys t')"
      using t'(1) by (simp add: table_inv_def keys_def iter_def)
    have 4: "getitem keq hf t' (fst kv) = Inr (snd kv)"
      if "kv \<in> set (items t) \<union> set kvs" for kv
    proof -
      have m: "kv \<in> set (items t')" using that it by simp
      then have "kv \<in> set (t_keys_list t')" by (simp add: items_def)
      then have "keq (fst kv) (fst kv)" using t'(2) by (simp add: all_proper_def)
      with assms(1) t'(1) m show ?thesis by (rule inv_getitem_entry)
    qed
    have 5: "t_capacity t \<le> t_capacity t'" using t'(4) by (simp add: grown_def)
    show ?thesis using 1 it 2 3 4 5 by blast
  qed
  show ?thesis using A B by blast
qed

theorem resize_transparent_witness:
  "init 2 (3 / 4) = Inr ex_new \<and>
   run ex_eq ex_hash 0 ex_new [] = Some ([], ex_new) \<and>
   run ex_eq ex_hash 1 ex_new (set_all [(Num 1, 10), (Num 2, 20), (Num 3, 30), (Num 4, 40)])
     = Some ([Done, Done, Done, Done], ex_four) \<and>
   t_capacity ex_new = 2 \<and> t_capacity ex_four = 8 \<and>
   len ex_four = 4 \<and>
   items ex_four = [(Num 1, 10), (Num 2, 20), (Num 3, 30), (Num 4, 40)] \<and>
   getitem ex_eq ex_hash ex_four (Num 3) = Inr 30"
proof -
  let ?kvs = "[(Num 1, 10), (Num 2, 20), (Num 3, 30), (Num 4, 40)] :: (ex_key \<times> int) list"
  have h3: "run ex_eq ex_hash 0 ex_new [] = Some ([], ex_new)" by simp
  have h4: "proper_history ex_eq ([] :: (ex_key, int) operation list)"
    by (simp add: proper_history_def)
  have h5: "unique_keys ex_eq (map fst ?kvs)" by simp
  have h6: "\<forall>k \<in> set (map fst ?kvs). ex_eq k k \<and> (\<forall>k' \<in> set (keys ex_new). \<not> ex_eq k' k)"
    by (simp add: keys_def iter_def ex_new_def)
  have r: "run ex_eq ex_hash 1 ex_new (set_all ?kvs) = Some ([Done, Done, Done, Done], ex_four)"
    by code_simp
  note transparent = resize_transparent [OF ex_contract ex_new_init h3 h4 h5 h6]
  have e: "len ex_four = len ex_new + int (length ?kvs) \<and> items ex_four = items ex_new @ ?kvs \<and>
        (\<forall>kv \<in> set (items ex_new) \<union> set ?kvs.
            getitem ex_eq ex_hash ex_four (fst kv) = Inr (snd kv))"
    using transparent r by blast
  have l: "len ex_four = 4" using e by (simp add: len_def ex_new_def)
  have it: "items ex_four = ?kvs" using e by (simp add: items_def ex_new_def)
  have "(Num 3, 30) \<in> set (items ex_new) \<union> set ?kvs" by simp
  then have g: "getitem ex_eq ex_hash ex_four (fst (Num 3, 30 :: int))
                  = Inr (snd (Num 3, 30 :: int))"
    using e by blast
  have c: "t_capacity ex_new = 2" "t_capacity ex_four = 8"
    by (simp_all add: ex_new_def ex_four_def)
  show ?thesis using ex_contract ex_new_init h3 h4 h5 h6 r c l it g by simp
qed

end
